theory Spec2Isabelle
  imports Main "HOL-Library.AList" "HOL-Library.Signed_Division" "HOL-Library.Word"
begin

section \<open>Common types\<close>

text \<open>
  Pointers (\<open>llama_model*\<close>, \<open>llama_context*\<close>) are opaque handles; \<open>0\<close> is \<open>nullptr\<close>.
  A \<open>steady_clock::time_point\<close> is its tick count. The clock ticks in nanoseconds
  (the period of \<open>steady_clock\<close> in libstdc++ and libc++), and
  \<open>duration_cast<seconds>\<close> truncates towards zero.
\<close>

type_synonym handle = nat
type_synonym time_point = int

definition nullptr :: handle where
  "nullptr = 0"

definition ticks_per_second :: int where
  "ticks_per_second = 1000000000"

definition duration_cast_seconds :: "int \<Rightarrow> int" where
  "duration_cast_seconds d = d sdiv ticks_per_second"

section \<open>The model resource cache of \<open>InferenceQueue\<close>\<close>

text \<open>
  \<open>ModelResources\<close> is declared in \<open>fllama_inference_queue.h\<close>; the fields are the ones
  the methods of \<open>fllama_inference_queue.cpp\<close> read and write. \<open>active_users\<close> is a signed
  counter (the code compares it with \<open>> 0\<close> and \<open>== 0\<close>), modelled as an unbounded
  integer: the guards of the code, not the type, have to keep it from going negative.
\<close>

record ModelResources =
  model :: handle
  ctx :: handle
  last_used :: time_point
  active_users :: int

text \<open>
  Modelled from the spec: the constructor \<open>ModelResources(model, ctx)\<close> of the header,
  which is not among the sources. The spec says that registration "inserts a new entry
  with \<open>active_users = 0\<close>"; the time of construction is taken for \<open>last_used\<close>.
\<close>

definition new_ModelResources :: "handle \<Rightarrow> handle \<Rightarrow> time_point \<Rightarrow> ModelResources" where
  "new_ModelResources m c now =
     \<lparr>model = m, ctx = c, last_used = now, active_users = 0\<rparr>"

text \<open>
  The calls that release a handle. The state records them in the order they are made.
\<close>

datatype release_call = llama_free handle | llama_model_free handle

text \<open>
  \<open>cached_models\<close> is a \<open>std::unordered_map<std::string, std::unique_ptr<ModelResources>>\<close>.
  It is an association list here: the order of the list stands for the (unspecified)
  iteration order of the map, and the keys of a well-formed cache are distinct.
  All fields below are guarded by \<open>models_lock\<close>; every operation runs under that lock
  and is therefore a function from state to state.
\<close>

record cache_state =
  cached_models :: "(string \<times> ModelResources) list"
  released :: "release_call list"

definition wf_cache :: "cache_state \<Rightarrow> bool" where
  "wf_cache st = distinct (map fst (cached_models st))"

definition empty_cache :: cache_state where
  "empty_cache = \<lparr>cached_models = [], released = []\<rparr>"

definition find_model :: "cache_state \<Rightarrow> string \<Rightarrow> ModelResources option" where
  "find_model st model_path = map_of (cached_models st) model_path"

definition register_model ::
  "string \<Rightarrow> handle \<Rightarrow> handle \<Rightarrow> time_point \<Rightarrow> cache_state \<Rightarrow> cache_state" where
  "register_model model_path m c now st =
     (case find_model st model_path of
        Some r \<Rightarrow>
          st\<lparr>cached_models :=
               AList.update model_path (r\<lparr>last_used := now\<rparr>) (cached_models st)\<rparr>
      | None \<Rightarrow>
          st\<lparr>cached_models :=
               AList.update model_path (new_ModelResources m c now) (cached_models st)\<rparr>)"

definition get_cached_model ::
  "string \<Rightarrow> time_point \<Rightarrow> cache_state \<Rightarrow> (handle \<times> handle) \<times> cache_state" where
  "get_cached_model model_path now st =
     (case find_model st model_path of
        Some r \<Rightarrow>
          (let r' = r\<lparr>last_used := now, active_users := active_users r + 1\<rparr>
           in ((model r', ctx r'),
               st\<lparr>cached_models := AList.update model_path r' (cached_models st)\<rparr>))
      | None \<Rightarrow> ((nullptr, nullptr), st))"

definition mark_model_used :: "string \<Rightarrow> time_point \<Rightarrow> cache_state \<Rightarrow> cache_state" where
  "mark_model_used model_path now st =
     (case find_model st model_path of
        Some r \<Rightarrow>
          st\<lparr>cached_models :=
               AList.update model_path (r\<lparr>last_used := now\<rparr>) (cached_models st)\<rparr>
      | None \<Rightarrow> st)"

definition increment_model_users :: "string \<Rightarrow> cache_state \<Rightarrow> cache_state" where
  "increment_model_users model_path st =
     (case find_model st model_path of
        Some r \<Rightarrow>
          st\<lparr>cached_models :=
               AList.update model_path (r\<lparr>active_users := active_users r + 1\<rparr>)
                 (cached_models st)\<rparr>
      | None \<Rightarrow> st)"

definition decrement_model_users :: "string \<Rightarrow> time_point \<Rightarrow> cache_state \<Rightarrow> cache_state" where
  "decrement_model_users model_path now st =
     (case find_model st model_path of
        Some r \<Rightarrow>
          (let r1 = (if active_users r > 0 then r\<lparr>active_users := active_users r - 1\<rparr> else r)
           in st\<lparr>cached_models :=
                    AList.update model_path (r1\<lparr>last_used := now\<rparr>) (cached_models st)\<rparr>)
      | None \<Rightarrow> st)"

text \<open>
  The two conditional release calls of \<open>free_model_resources\<close>:
  \<open>if (resources->ctx) llama_free(...); if (resources->model) llama_model_free(...)\<close>.
\<close>

definition release_handles :: "ModelResources \<Rightarrow> release_call list" where
  "release_handles r =
     (if ctx r \<noteq> nullptr then [llama_free (ctx r)] else []) @
     (if model r \<noteq> nullptr then [llama_model_free (model r)] else [])"

definition free_model_resources :: "string \<Rightarrow> cache_state \<Rightarrow> cache_state" where
  "free_model_resources model_path st =
     (case find_model st model_path of
        Some r \<Rightarrow>
          if active_users r > 0 then st
          else st\<lparr>released := released st @ release_handles r,
                  cached_models := AList.delete model_path (cached_models st)\<rparr>
      | None \<Rightarrow> st)"

text \<open>
  One pass of the loop of \<open>cleanup_inactive_models\<close>, after the wait has returned:
  \<open>timeout\<close> is \<open>MODEL_INACTIVITY_TIMEOUT_SEC\<close> (a constant of the header) and
  \<open>now\<close> the clock reading of the pass.
\<close>

definition elapsed :: "time_point \<Rightarrow> ModelResources \<Rightarrow> int" where
  "elapsed now r = duration_cast_seconds (now - last_used r)"

definition sweep_qualifies :: "int \<Rightarrow> time_point \<Rightarrow> ModelResources \<Rightarrow> bool" where
  "sweep_qualifies timeout now r \<longleftrightarrow> elapsed now r \<ge> timeout \<and> active_users r = 0"

definition sweep_models_to_free :: "int \<Rightarrow> time_point \<Rightarrow> cache_state \<Rightarrow> string list" where
  "sweep_models_to_free timeout now st =
     map fst (filter (\<lambda>(path, r). sweep_qualifies timeout now r) (cached_models st))"

definition cleanup_sweep :: "int \<Rightarrow> time_point \<Rightarrow> cache_state \<Rightarrow> cache_state" where
  "cleanup_sweep timeout now st =
     fold free_model_resources (sweep_models_to_free timeout now st) st"

text \<open>
  The loop itself runs one pass per wake-up until \<open>done\<close> is set; the clock readings of
  the passes are given.
\<close>

definition cleanup_inactive_models :: "int \<Rightarrow> time_point list \<Rightarrow> cache_state \<Rightarrow> cache_state" where
  "cleanup_inactive_models timeout wakes st = fold (cleanup_sweep timeout) wakes st"

definition clear_models_to_free :: "bool \<Rightarrow> cache_state \<Rightarrow> string list" where
  "clear_models_to_free force_clear st =
     map fst (filter (\<lambda>(path, r). active_users r = 0 \<or> force_clear) (cached_models st))"

definition clear_model_cache :: "bool \<Rightarrow> cache_state \<Rightarrow> cache_state" where
  "clear_model_cache force_clear st =
     fold free_model_resources (clear_models_to_free force_clear st) st"


text \<open>
  A cache with an idle entry, an entry in use and a recently used idle entry, for
  evaluating the operations on a concrete state.
\<close>

definition example_cache :: cache_state where
  "example_cache = \<lparr>cached_models =
      [(''a.gguf'', \<lparr>model = 1, ctx = 2, last_used = 0, active_users = 0\<rparr>),
       (''b.gguf'', \<lparr>model = 3, ctx = 4, last_used = 0, active_users = 1\<rparr>),
       (''c.gguf'', \<lparr>model = 5, ctx = 6, last_used = 50000000000, active_users = 0\<rparr>)],
     released = []\<rparr>"

text \<open>
  The operations a caller, the janitor and an explicit clear can apply to the cache, in
  any order; each carries the clock reading it takes. \<open>Acquire\<close> is
  \<open>get_cached_model\<close>, \<open>Sweep\<close> one pass of the janitor.
\<close>

datatype cache_op =
    Register string handle handle time_point
  | Acquire string time_point
  | Mark_used string time_point
  | Increment string
  | Decrement string time_point
  | Sweep time_point
  | Clear bool

fun apply_cache_op :: "int \<Rightarrow> cache_op \<Rightarrow> cache_state \<Rightarrow> cache_state" where
  "apply_cache_op timeout (Register path m c now) st = register_model path m c now st"
| "apply_cache_op timeout (Acquire path now) st = snd (get_cached_model path now st)"
| "apply_cache_op timeout (Mark_used path now) st = mark_model_used path now st"
| "apply_cache_op timeout (Increment path) st = increment_model_users path st"
| "apply_cache_op timeout (Decrement path now) st = decrement_model_users path now st"
| "apply_cache_op timeout (Sweep now) st = cleanup_sweep timeout now st"
| "apply_cache_op timeout (Clear force_clear) st = clear_model_cache force_clear st"

definition run_cache_ops :: "int \<Rightarrow> cache_op list \<Rightarrow> cache_state \<Rightarrow> cache_state" where
  "run_cache_ops timeout ops st = fold (apply_cache_op timeout) ops st"

text \<open>
  Every count of the cache is non-negative; every count is at most \<open>n\<close>.
\<close>

definition users_nonneg :: "cache_state \<Rightarrow> bool" where
  "users_nonneg st = list_all (\<lambda>(path, r). 0 \<le> active_users r) (cached_models st)"

definition users_at_most :: "int \<Rightarrow> cache_state \<Rightarrow> bool" where
  "users_at_most n st = list_all (\<lambda>(path, r). active_users r \<le> n) (cached_models st)"

section \<open>The task queue and the inference worker of \<open>InferenceQueue\<close>\<close>

text \<open>
  A task body is the closure \<open>[request, callback]() { fllama_inference_sync(request,
  callback); }\<close>. The inference call is external: the model takes a body as a function
  on the state \<open>'w\<close> it acts on (the callbacks it has fired, say), which either returns
  or throws. A thrown \<open>std::exception\<close> carries its \<open>what()\<close>; anything else is
  caught by \<open>catch (...)\<close>.
\<close>

datatype exn = Std_exception string | Unknown_exception

datatype 'w task_result = Returns 'w | Throws exn 'w

text \<open>
  \<open>TaskWrapper\<close> is declared in the header: a callable and the request id it was
  enqueued with.
\<close>

record 'w TaskWrapper =
  task :: "'w \<Rightarrow> 'w task_result"
  request_id :: int

text \<open>
  What became of a task the worker took from the queue.
\<close>

datatype disposition = Skipped | Executed | Failed

text \<open>
  The fields of \<open>InferenceQueue\<close> that the queue operations and the worker use:
  \<open>tasks\<close> (a \<open>std::queue\<close>, front of the queue first), \<open>cancel_flags\<close> and
  \<open>done\<close> (\<open>done_flag\<close> here). Beside them the state holds what the worker
  does to the outside:
  the state the task bodies act on, the tasks it took with their disposition in the order
  it took them, the lines it wrote to \<open>std::cerr\<close>, and the number of
  \<open>cleanup_cond_var.notify_one()\<close> calls it made. A task body acts on that outside
  state only, not on the queue. Each lock scope of the code is one atomic step of the
  model.
\<close>

record 'w queue_state =
  tasks :: "'w TaskWrapper list"
  cancel_flags :: "int \<rightharpoonup> bool"
  done_flag :: bool
  world :: 'w
  history :: "('w TaskWrapper \<times> disposition) list"
  cerr :: "string list"
  cleanup_notified :: nat

definition init_queue :: "'w \<Rightarrow> 'w queue_state" where
  "init_queue w =
     \<lparr>tasks = [], cancel_flags = Map.empty, done_flag = False, world = w,
      history = [], cerr = [], cleanup_notified = 0\<rparr>"

subsection \<open>The calls of a producer\<close>

definition enqueue :: "('w \<Rightarrow> 'w task_result) \<Rightarrow> int \<Rightarrow> 'w queue_state \<Rightarrow> 'w queue_state" where
  "enqueue body rid st = st\<lparr>tasks := tasks st @ [\<lparr>task = body, request_id = rid\<rparr>]\<rparr>"

definition cancel :: "int \<Rightarrow> 'w queue_state \<Rightarrow> 'w queue_state" where
  "cancel rid st = st\<lparr>cancel_flags := (cancel_flags st)(rid \<mapsto> True)\<rparr>"

definition is_cancelled :: "int \<Rightarrow> 'w queue_state \<Rightarrow> bool" where
  "is_cancelled rid st = (case cancel_flags st rid of Some b \<Rightarrow> b | None \<Rightarrow> False)"

subsection \<open>One iteration of \<open>process_inference\<close>\<close>

text \<open>
  The first lock scope waits until the queue is non-empty or \<open>done\<close> is set, leaves
  the loop when \<open>done\<close> is set and the queue is empty, and moves the front task into
  \<open>taskWrapperPtr\<close> otherwise. With an empty queue and \<open>done\<close> not set the wait
  does not return.
\<close>

datatype 'w dequeue_result = Blocked | Break | Dequeued "'w TaskWrapper" "'w queue_state"

definition wait_and_dequeue :: "'w queue_state \<Rightarrow> 'w dequeue_result" where
  "wait_and_dequeue st =
     (case tasks st of
        [] \<Rightarrow> if done_flag st then Break else Blocked
      | t # ts \<Rightarrow> Dequeued t (st\<lparr>tasks := ts\<rparr>))"

text \<open>
  The second part of the iteration: the cancellation check, which erases a set flag and
  goes on to the next iteration (skipping the notification at the end of the loop body),
  and the call of the task inside \<open>try\<close>/\<open>catch\<close>.
\<close>

definition cerr_line :: "exn \<Rightarrow> string" where
  "cerr_line e = (case e of
      Std_exception msg \<Rightarrow> ''[InferenceQueue] Exception in task execution: '' @ msg
    | Unknown_exception \<Rightarrow> ''[InferenceQueue] Unknown exception in task execution'')"

definition check_and_execute :: "'w TaskWrapper \<Rightarrow> 'w queue_state \<Rightarrow> 'w queue_state" where
  "check_and_execute t st =
     (if is_cancelled (request_id t) st then
        st\<lparr>cancel_flags := (cancel_flags st)(request_id t := None),
           history := history st @ [(t, Skipped)]\<rparr>
      else
        (case task t (world st) of
           Returns w \<Rightarrow>
             st\<lparr>world := w, history := history st @ [(t, Executed)],
                cleanup_notified := cleanup_notified st + 1\<rparr>
         | Throws e w \<Rightarrow>
             st\<lparr>world := w, history := history st @ [(t, Failed)],
                cerr := cerr st @ [cerr_line e],
                cleanup_notified := cleanup_notified st + 1\<rparr>))"

subsection \<open>The loop\<close>

text \<open>
  The loop of \<open>process_inference\<close> while no producer interferes: it takes task after
  task until the queue is empty, and then either leaves (\<open>done\<close> set) or waits.
\<close>

datatype 'w loop_end = Exits "'w queue_state" | Waits "'w queue_state"

function process_inference :: "'w queue_state \<Rightarrow> 'w loop_end" where
  "process_inference st =
     (case wait_and_dequeue st of
        Break \<Rightarrow> Exits st
      | Blocked \<Rightarrow> Waits st
      | Dequeued t st1 \<Rightarrow> process_inference (check_and_execute t st1))"
  by pat_completeness auto
termination
proof (relation "measure (\<lambda>st. length (tasks st))")
  show "wf (measure (\<lambda>st. length (tasks st)))" by simp
next
  fix st :: "'w queue_state" and t st1
  assume "wait_and_dequeue st = Dequeued t st1"
  then show "(check_and_execute t st1, st) \<in> measure (\<lambda>st. length (tasks st))"
    by (auto simp: wait_and_dequeue_def check_and_execute_def
        split: list.splits if_splits task_result.splits)
qed

declare process_inference.simps [simp del]

subsection \<open>Producers running beside the worker\<close>

text \<open>
  An interleaving of the producers' calls with the steps of the worker. The worker's
  local \<open>taskWrapperPtr\<close> is the first component of the state: a \<open>Worker\<close> step
  is the first lock scope when it is empty and the check and execution of the task it
  holds otherwise, so producers can act between the dequeue and the check. This model
  serves the order of the tasks and the handling of a failing task; it takes the check
  as one step and has no step for the destructor. The finer model of the next subsection
  has both.
\<close>

datatype 'w event = Enqueue "'w \<Rightarrow> 'w task_result" int | Cancel int | Worker

fun apply_event ::
  "'w event \<Rightarrow> 'w TaskWrapper option \<times> 'w queue_state \<Rightarrow>
   'w TaskWrapper option \<times> 'w queue_state" where
  "apply_event (Enqueue body rid) (cur, st) = (cur, enqueue body rid st)"
| "apply_event (Cancel rid) (cur, st) = (cur, cancel rid st)"
| "apply_event Worker (None, st) =
     (case wait_and_dequeue st of
        Dequeued t st1 \<Rightarrow> (Some t, st1)
      | _ \<Rightarrow> (None, st))"
| "apply_event Worker (Some t, st) = (None, check_and_execute t st)"

definition run_events ::
  "'w event list \<Rightarrow> 'w TaskWrapper option \<times> 'w queue_state \<Rightarrow>
   'w TaskWrapper option \<times> 'w queue_state" where
  "run_events evs s = fold apply_event evs s"

text \<open>
  What the properties of an interleaving are stated with: the tasks its enqueue calls
  made, in the order of the calls; which events are cancel calls; the task the worker holds, as a list; the state a task body leaves,
  returned or thrown; the state that running the bodies of the taken tasks one after
  the other gives (a skipped task runs nothing); the state a run of the loop ends in.
\<close>

fun enqueued :: "'w event list \<Rightarrow> 'w TaskWrapper list" where
  "enqueued [] = []"
| "enqueued (Enqueue body rid # evs) = \<lparr>task = body, request_id = rid\<rparr> # enqueued evs"
| "enqueued (_ # evs) = enqueued evs"

fun is_cancel :: "'w event \<Rightarrow> bool" where
  "is_cancel (Cancel rid) = True"
| "is_cancel _ = False"

definition in_hand :: "'w TaskWrapper option \<Rightarrow> 'w TaskWrapper list" where
  "in_hand cur = (case cur of None \<Rightarrow> [] | Some t \<Rightarrow> [t])"

definition result_world :: "'w task_result \<Rightarrow> 'w" where
  "result_world res = (case res of Returns w \<Rightarrow> w | Throws e w \<Rightarrow> w)"

fun replay :: "('w TaskWrapper \<times> disposition) list \<Rightarrow> 'w \<Rightarrow> 'w" where
  "replay [] w = w"
| "replay ((t, d) # h) w = replay h (if d = Skipped then w else result_world (task t w))"

definition final_state :: "'w loop_end \<Rightarrow> 'w queue_state" where
  "final_state e = (case e of Exits st \<Rightarrow> st | Waits st \<Rightarrow> st)"

text \<open>
  No request id is cancelled; no task in the history was skipped.
\<close>

definition no_flag_set :: "'w queue_state \<Rightarrow> bool" where
  "no_flag_set st \<longleftrightarrow> (\<forall>rid. \<not> is_cancelled rid st)"

definition none_skipped :: "'w queue_state \<Rightarrow> bool" where
  "none_skipped st = list_all (\<lambda>(t, d). d \<noteq> Skipped) (history st)"

subsection \<open>The cancellation check, operation by operation, and the destructor\<close>

text \<open>
  The worker makes its cancellation check under \<open>inference_lock\<close>, while
  \<open>cancel\<close>, \<open>is_cancelled\<close>, \<open>enqueue\<close> and the first block of the destructor
  hold \<open>queue_lock\<close>: nothing keeps those calls from running between two operations
  of the check. The finer model below therefore takes every operation the worker makes on
  \<open>cancel_flags\<close> as a step of its own, and it has the two first blocks of
  \<open>~InferenceQueue\<close> as steps: \<open>cancel_flags.clear()\<close> and \<open>done = true\<close>. A single
  map operation is taken as atomic; what two unsynchronised operations running at the
  same instant do is undefined in C++ and outside the model. \<open>is_cancelled\<close> changes
  nothing (its \<open>operator[]\<close> runs only on a key that \<open>find\<close> has found) and needs no
  step.

  Where the worker is: waiting at the top of the loop; holding a dequeued task before
  \<open>cancel_flags.find(id)\<close>; before \<open>cancel_flags[id]\<close>; before
  \<open>cancel_flags.erase(id)\<close>; before the call of the task.
\<close>

datatype 'w worker_pc =
    At_wait
  | At_find "'w TaskWrapper"
  | At_read "'w TaskWrapper"
  | At_erase "'w TaskWrapper"
  | At_call "'w TaskWrapper"

datatype 'w step =
    Enqueue_call "'w \<Rightarrow> 'w task_result" int
  | Cancel_call int
  | Destructor_clear
  | Destructor_done
  | Worker_step

text \<open>
  The call of the task inside \<open>try\<close>/\<open>catch\<close> and the notification after it.
\<close>

definition call_task :: "'w TaskWrapper \<Rightarrow> 'w queue_state \<Rightarrow> 'w queue_state" where
  "call_task t st =
     (case task t (world st) of
        Returns w \<Rightarrow>
          st\<lparr>world := w, history := history st @ [(t, Executed)],
             cleanup_notified := cleanup_notified st + 1\<rparr>
      | Throws e w \<Rightarrow>
          st\<lparr>world := w, history := history st @ [(t, Failed)],
             cerr := cerr st @ [cerr_line e],
             cleanup_notified := cleanup_notified st + 1\<rparr>)"

text \<open>
  One step of the worker. \<open>cancel_flags[id]\<close> on a key that is no longer there
  inserts \<open>false\<close> and reads it.
\<close>

fun worker_step :: "'w worker_pc \<Rightarrow> 'w queue_state \<Rightarrow> 'w worker_pc \<times> 'w queue_state" where
  "worker_step At_wait st =
     (case wait_and_dequeue st of
        Dequeued t st1 \<Rightarrow> (At_find t, st1)
      | _ \<Rightarrow> (At_wait, st))"
| "worker_step (At_find t) st =
     (if cancel_flags st (request_id t) \<noteq> None then (At_read t, st) else (At_call t, st))"
| "worker_step (At_read t) st =
     (case cancel_flags st (request_id t) of
        None \<Rightarrow> (At_call t, st\<lparr>cancel_flags := (cancel_flags st)(request_id t \<mapsto> False)\<rparr>)
      | Some b \<Rightarrow> if b then (At_erase t, st) else (At_call t, st))"
| "worker_step (At_erase t) st =
     (At_wait, st\<lparr>cancel_flags := (cancel_flags st)(request_id t := None),
                  history := history st @ [(t, Skipped)]\<rparr>)"
| "worker_step (At_call t) st = (At_wait, call_task t st)"

fun apply_step ::
  "'w step \<Rightarrow> 'w worker_pc \<times> 'w queue_state \<Rightarrow> 'w worker_pc \<times> 'w queue_state" where
  "apply_step (Enqueue_call body rid) (pc, st) = (pc, enqueue body rid st)"
| "apply_step (Cancel_call rid) (pc, st) = (pc, cancel rid st)"
| "apply_step Destructor_clear (pc, st) = (pc, st\<lparr>cancel_flags := Map.empty\<rparr>)"
| "apply_step Destructor_done (pc, st) = (pc, st\<lparr>done_flag := True\<rparr>)"
| "apply_step Worker_step (pc, st) = worker_step pc st"

definition run_steps ::
  "'w step list \<Rightarrow> 'w worker_pc \<times> 'w queue_state \<Rightarrow> 'w worker_pc \<times> 'w queue_state" where
  "run_steps steps s = fold apply_step steps s"



text \<open>
  Task bodies for evaluating the queue on concrete inputs: the state they act on is the
  list of the callbacks fired so far.
\<close>

definition ok_task :: "int \<Rightarrow> int list TaskWrapper" where
  "ok_task i = \<lparr>task = (\<lambda>w. Returns (w @ [i])), request_id = i\<rparr>"

definition bad_task :: "int \<Rightarrow> int list TaskWrapper" where
  "bad_task i = \<lparr>task = (\<lambda>w. Throws (Std_exception ''boom'') (w @ [- i])), request_id = i\<rparr>"

definition example_queue :: "int list TaskWrapper list \<Rightarrow> int list queue_state" where
  "example_queue ts = (init_queue [])\<lparr>tasks := ts\<rparr>"

text \<open>
  The history by request id.
\<close>

definition dispositions :: "'w queue_state \<Rightarrow> (int \<times> disposition) list" where
  "dispositions st = map (\<lambda>(t, d). (request_id t, d)) (history st)"

section \<open>The tokenizer's model cache (\<open>fllama_tokenize.cpp\<close>)\<close>

text \<open>
  An entry of \<open>model_cache\<close>: the shared model handle and the time of the last
  access. The state holds the cache and, beside it, the paths
  \<open>llama_load_model_from_file\<close> was called with, in the order of the calls. The whole
  of \<open>_get_or_load_model\<close> runs under \<open>cache_mutex\<close>.
\<close>

record ModelCacheEntry =
  entry_model :: handle
  last_access :: time_point

record tokenizer_state =
  model_cache :: "(string \<times> ModelCacheEntry) list"
  loads :: "string list"

definition wf_model_cache :: "tokenizer_state \<Rightarrow> bool" where
  "wf_model_cache st = distinct (map fst (model_cache st))"

definition cache_find :: "tokenizer_state \<Rightarrow> string \<Rightarrow> ModelCacheEntry option" where
  "cache_find st model_path = map_of (model_cache st) model_path"

text \<open>
  \<open>cleanup_cache\<close> collects the keys whose elapsed time, cast to whole seconds, is
  greater than 30 and erases them.
\<close>

definition expired :: "time_point \<Rightarrow> ModelCacheEntry \<Rightarrow> bool" where
  "expired now e \<longleftrightarrow> duration_cast_seconds (now - last_access e) > 30"

definition cleanup_cache :: "time_point \<Rightarrow> tokenizer_state \<Rightarrow> tokenizer_state" where
  "cleanup_cache now st =
     (let to_erase = map fst (filter (\<lambda>(key, e). expired now e) (model_cache st))
      in st\<lparr>model_cache := fold AList.delete to_erase (model_cache st)\<rparr>)"

text \<open>
  \<open>_get_or_load_model\<close>. The loader \<open>llama_load_model_from_file\<close> is external and
  a parameter: it returns a handle, or \<open>nullptr\<close> when the model cannot be loaded.
  \<open>now1\<close> is the clock reading of \<open>cleanup_cache\<close>, \<open>now2\<close> the later one that
  is stored as \<open>last_access\<close>.
\<close>

definition get_or_load_model ::
  "(string \<Rightarrow> handle) \<Rightarrow> time_point \<Rightarrow> time_point \<Rightarrow> string \<Rightarrow> tokenizer_state \<Rightarrow>
   handle \<times> tokenizer_state" where
  "get_or_load_model llama_load_model_from_file now1 now2 model_path st =
     (let st1 = cleanup_cache now1 st in
      case cache_find st1 model_path of
        Some e \<Rightarrow>
          (entry_model e,
           st1\<lparr>model_cache :=
                 AList.update model_path (e\<lparr>last_access := now2\<rparr>) (model_cache st1)\<rparr>)
      | None \<Rightarrow>
          (let raw_model = llama_load_model_from_file model_path;
               st2 = st1\<lparr>loads := loads st1 @ [model_path]\<rparr>
           in if raw_model = nullptr then (nullptr, st2)
              else (raw_model,
                    st2\<lparr>model_cache :=
                          AList.update model_path
                            \<lparr>entry_model = raw_model, last_access = now2\<rparr>
                            (model_cache st2)\<rparr>)))"

text \<open>
  \<open>fllama_tokenize\<close>. The tokenizer \<open>llama_tokenize\<close> is external and a parameter:
  given the model, the input and the capacity of the token buffer it returns an
  \<open>int\<close>, negative on error. The result type \<open>size_t\<close> is a word of any width
  \<open>'a\<close>; \<open>return -1\<close> and the size of the resized token list are conversions of an
  \<open>int\<close> to that word.
\<close>

record fllama_tokenize_request =
  input :: string
  model_path :: string

definition fllama_tokenize ::
  "(string \<Rightarrow> handle) \<Rightarrow> (handle \<Rightarrow> string \<Rightarrow> nat \<Rightarrow> 32 word) \<Rightarrow>
   time_point \<Rightarrow> time_point \<Rightarrow> fllama_tokenize_request \<Rightarrow> tokenizer_state \<Rightarrow>
   'a::len word \<times> tokenizer_state" where
  "fllama_tokenize llama_load_model_from_file llama_tokenize now1 now2 request st =
     (let (m, st') = get_or_load_model llama_load_model_from_file now1 now2 (model_path request) st
      in if m = nullptr then (word_of_int (- 1), st')
         else
           (let input_len = length (input request);
                n_tokens = llama_tokenize m (input request) (input_len + 3)
            in if sint n_tokens < 0 then (0, st')
               else (word_of_int (sint n_tokens), st')))"

text \<open>
  A cache, loaders, tokenizers and a request for evaluating the tokenizer on concrete
  inputs: \<open>loads_as h\<close> returns the handle \<open>h\<close> for every path (and fails for
  \<open>h = nullptr\<close>), \<open>counts_as n\<close> returns \<open>n\<close> for every input.
\<close>

definition example_tokenizer :: tokenizer_state where
  "example_tokenizer =
     \<lparr>model_cache = [(''x.gguf'', \<lparr>entry_model = 7, last_access = 0\<rparr>)], loads = []\<rparr>"

definition loads_as :: "handle \<Rightarrow> string \<Rightarrow> handle" where
  "loads_as h path = h"

definition counts_as :: "32 word \<Rightarrow> handle \<Rightarrow> string \<Rightarrow> nat \<Rightarrow> 32 word" where
  "counts_as n m text capacity = n"

definition example_request :: fllama_tokenize_request where
  "example_request = \<lparr>input = ''hi'', model_path = ''y.gguf''\<rparr>"

section \<open>Properties of the model resource cache\<close>

subsection \<open>Freeing entries\<close>

lemma free_cached_filter:
  assumes "distinct (map fst (cached_models st))"
  shows "cached_models (free_model_resources p st) =
         filter (\<lambda>(k, r). \<not> (k = p \<and> \<not> active_users r > 0)) (cached_models st)"
proof (cases "find_model st p")
  case None
  then have "p \<notin> fst ` set (cached_models st)"
    by (simp add: find_model_def map_of_eq_None_iff)
  then have "\<forall>x \<in> set (cached_models st). (case x of (k, r) \<Rightarrow> \<not> (k = p \<and> \<not> active_users r > 0))"
    by force
  then show ?thesis using None
    by (simp add: free_model_resources_def)
next
  case (Some r)
  then have mem: "(p, r) \<in> set (cached_models st)"
    by (simp add: find_model_def map_of_SomeD)
  have uniq: "\<And>r'. (p, r') \<in> set (cached_models st) \<Longrightarrow> r' = r"
    using assms mem by (meson eq_key_imp_eq_value)
  show ?thesis
  proof (cases "active_users r > 0")
    case True
    have "\<forall>x \<in> set (cached_models st). (case x of (k, r) \<Rightarrow> \<not> (k = p \<and> \<not> active_users r > 0))"
      using uniq True by auto
    then show ?thesis using Some True
      by (simp add: free_model_resources_def)
  next
    case False
    have "filter (\<lambda>(k, r). \<not> (k = p \<and> \<not> active_users r > 0)) (cached_models st)
          = filter (\<lambda>(k, r). p \<noteq> k) (cached_models st)"
      by (rule filter_cong) (use uniq False in auto)
    then show ?thesis using Some False
      by (simp add: free_model_resources_def AList.delete_eq)
  qed
qed


lemma wf_free: "wf_cache st \<Longrightarrow> wf_cache (free_model_resources p st)"
  by (simp add: wf_cache_def free_model_resources_def distinct_delete split: option.splits)

lemma fold_free_cached:
  "wf_cache st \<Longrightarrow>
   cached_models (fold free_model_resources ps st) =
     filter (\<lambda>(k, r). \<not> (k \<in> set ps \<and> \<not> active_users r > 0)) (cached_models st)"
proof (induction ps arbitrary: st)
  case Nil
  then show ?case by simp
next
  case (Cons p ps)
  have "cached_models (fold free_model_resources (p # ps) st) =
        filter (\<lambda>(k, r). \<not> (k \<in> set ps \<and> \<not> active_users r > 0))
          (filter (\<lambda>(k, r). \<not> (k = p \<and> \<not> active_users r > 0)) (cached_models st))"
    using Cons.IH [OF wf_free [OF Cons.prems]] Cons.prems
    by (simp add: free_cached_filter wf_cache_def)
  also have "\<dots> = filter (\<lambda>(k, r). \<not> (k \<in> set (p # ps) \<and> \<not> active_users r > 0)) (cached_models st)"
    by (auto intro: filter_cong)
  finally show ?case .
qed



lemma lookup_entries:
  "distinct (map fst al) \<Longrightarrow>
   map (\<lambda>p. f (map_of al p)) (map fst (filter Q al)) = map (\<lambda>(p, r). f (Some r)) (filter Q al)"
  by (auto simp: map_of_eq_Some_iff [THEN iffD2])

lemma sdiv_nonneg: "(0::int) \<le> d \<Longrightarrow> 0 < c \<Longrightarrow> d sdiv c = d div c"
  by (cases "d = 0") (simp_all add: signed_divide_int_def)

lemma le_div_iff_int:
  fixes a b c :: int
  assumes c: "0 < c"
  shows "(a \<le> b div c) = (a * c \<le> b)"
proof
  assume "a \<le> b div c"
  then have "a * c \<le> (b div c) * c"
    using c by (simp add: mult_right_mono)
  also have "\<dots> \<le> b"
    using c pos_mod_sign [of c b] minus_mod_eq_div_mult [of b c] by linarith
  finally show "a * c \<le> b" .
next
  assume "a * c \<le> b"
  then have "(a * c) div c \<le> b div c"
    using c by (rule zdiv_mono1)
  then show "a \<le> b div c" using c by simp
qed


lemma map_of_filter_distinct:
  assumes "distinct (map fst al)" "map_of al k = Some r"
  shows "map_of (filter (\<lambda>(k, r). P k r) al) k = (if P k r then Some r else None)"
proof (cases "P k r")
  case True
  then show ?thesis using assms(2) by (simp add: map_of_filter_in)
next
  case False
  have "k \<notin> fst ` set (filter (\<lambda>(k, r). P k r) al)"
  proof
    assume "k \<in> fst ` set (filter (\<lambda>(k, r). P k r) al)"
    then obtain r' where "(k, r') \<in> set al" "P k r'" by auto
    moreover have "(k, r) \<in> set al" using assms(2) by (rule map_of_SomeD)
    ultimately show False using assms(1) False by (auto dest: eq_key_imp_eq_value)
  qed
  then show ?thesis using False by (simp add: map_of_eq_None_iff)
qed

lemma sweep_cached:
  assumes "wf_cache st"
  shows "cached_models (cleanup_sweep timeout now st) =
         filter (\<lambda>(path, r). \<not> sweep_qualifies timeout now r) (cached_models st)"
proof -
  have d: "distinct (map fst (cached_models st))" using assms by (simp add: wf_cache_def)
  have "filter (\<lambda>(k, r). \<not> (k \<in> set (sweep_models_to_free timeout now st) \<and> \<not> active_users r > 0))
          (cached_models st) =
        filter (\<lambda>(path, r). \<not> sweep_qualifies timeout now r) (cached_models st)"
  proof (rule filter_cong [OF refl])
    fix x assume x: "x \<in> set (cached_models st)"
    obtain k r where kr: "x = (k, r)" by (cases x)
    have "k \<in> set (sweep_models_to_free timeout now st) \<longleftrightarrow> sweep_qualifies timeout now r"
      using x kr d by (auto simp: sweep_models_to_free_def image_iff dest: eq_key_imp_eq_value)
    then show "(case x of (k, r) \<Rightarrow> \<not> (k \<in> set (sweep_models_to_free timeout now st) \<and> \<not> active_users r > 0)) =
               (case x of (path, r) \<Rightarrow> \<not> sweep_qualifies timeout now r)"
      using kr by (auto simp: sweep_qualifies_def)
  qed
  then show ?thesis
    using fold_free_cached [OF assms] by (simp add: cleanup_sweep_def)
qed




subsection \<open>What a clear keeps\<close>


subsection \<open>The janitor sweep\<close>

lemma find_model_filter:
  assumes "wf_cache st" "find_model st path = Some r"
  shows "map_of (filter (\<lambda>(k, r). P k r) (cached_models st)) path = (if P path r then Some r else None)"
  using assms by (simp add: wf_cache_def find_model_def map_of_filter_distinct)



subsection \<open>Clearing the cache\<close>

text \<open>
  C1. The claim says that \<open>clear_model_cache(true)\<close> frees every entry regardless of
  its active-user count. On a cache that holds one entry with one active user the forced
  clear changes nothing: the entry stays and no handle is released.
\<close>

theorem clear_model_cache_force_keeps_active:
  "clear_model_cache True
     \<lparr>cached_models = [(''m.gguf'', \<lparr>model = 1, ctx = 2, last_used = 0, active_users = 1\<rparr>)],
      released = []\<rparr> =
     \<lparr>cached_models = [(''m.gguf'', \<lparr>model = 1, ctx = 2, last_used = 0, active_users = 1\<rparr>)],
      released = []\<rparr>"
  by (simp add: clear_model_cache_def clear_models_to_free_def free_model_resources_def find_model_def)

subsection \<open>The cache stays well-formed and the user count non-negative\<close>

lemma list_all_update:
  "list_all P al \<Longrightarrow> P (k, v) \<Longrightarrow> list_all P (AList.update k v al)"
  by (induction al) auto

lemma list_all_delete:
  "list_all P al \<Longrightarrow> list_all P (AList.delete k al)"
  by (simp add: AList.delete_eq list_all_iff)

lemma users_nonneg_find:
  "users_nonneg st \<Longrightarrow> find_model st path = Some r \<Longrightarrow> 0 \<le> active_users r"
  by (auto simp: users_nonneg_def find_model_def list_all_iff dest: map_of_SomeD)

lemma users_nonneg_register:
  "users_nonneg st \<Longrightarrow> users_nonneg (register_model path m c now st)"
  by (auto simp: register_model_def users_nonneg_def new_ModelResources_def
      intro!: list_all_update dest: users_nonneg_find [unfolded users_nonneg_def] split: option.splits)

lemma users_nonneg_get:
  "users_nonneg st \<Longrightarrow> users_nonneg (snd (get_cached_model path now st))"
  by (auto simp: get_cached_model_def users_nonneg_def Let_def
      intro!: list_all_update dest: users_nonneg_find [unfolded users_nonneg_def] split: option.splits)

lemma users_nonneg_mark:
  "users_nonneg st \<Longrightarrow> users_nonneg (mark_model_used path now st)"
  by (auto simp: mark_model_used_def users_nonneg_def
      intro!: list_all_update dest: users_nonneg_find [unfolded users_nonneg_def] split: option.splits)

lemma users_nonneg_increment:
  "users_nonneg st \<Longrightarrow> users_nonneg (increment_model_users path st)"
  by (auto simp: increment_model_users_def users_nonneg_def
      intro!: list_all_update dest: users_nonneg_find [unfolded users_nonneg_def] split: option.splits)

lemma users_nonneg_decrement:
  "users_nonneg st \<Longrightarrow> users_nonneg (decrement_model_users path now st)"
  by (auto simp: decrement_model_users_def users_nonneg_def Let_def
      intro!: list_all_update dest: users_nonneg_find [unfolded users_nonneg_def] split: option.splits)

lemma users_nonneg_free:
  "users_nonneg st \<Longrightarrow> users_nonneg (free_model_resources path st)"
  by (auto simp: free_model_resources_def users_nonneg_def
      intro!: list_all_delete split: option.splits)

lemma users_nonneg_fold_free:
  "users_nonneg st \<Longrightarrow> users_nonneg (fold free_model_resources ps st)"
  by (induction ps arbitrary: st) (simp_all add: users_nonneg_free)

lemma users_nonneg_apply:
  "users_nonneg st \<Longrightarrow> users_nonneg (apply_cache_op timeout op st)"
  by (cases op)
    (simp_all add: users_nonneg_register users_nonneg_get users_nonneg_mark
      users_nonneg_increment users_nonneg_decrement users_nonneg_fold_free
      cleanup_sweep_def clear_model_cache_def)

lemma users_nonneg_run:
  "users_nonneg st \<Longrightarrow> users_nonneg (run_cache_ops timeout ops st)"
  unfolding run_cache_ops_def
  by (induction ops arbitrary: st) (simp_all add: users_nonneg_apply)

lemma wf_register: "wf_cache st \<Longrightarrow> wf_cache (register_model path m c now st)"
  by (simp add: wf_cache_def register_model_def distinct_update split: option.splits)

lemma wf_get: "wf_cache st \<Longrightarrow> wf_cache (snd (get_cached_model path now st))"
  by (simp add: wf_cache_def get_cached_model_def Let_def distinct_update split: option.splits)

lemma wf_mark: "wf_cache st \<Longrightarrow> wf_cache (mark_model_used path now st)"
  by (simp add: wf_cache_def mark_model_used_def distinct_update split: option.splits)

lemma wf_increment: "wf_cache st \<Longrightarrow> wf_cache (increment_model_users path st)"
  by (simp add: wf_cache_def increment_model_users_def distinct_update split: option.splits)

lemma wf_decrement: "wf_cache st \<Longrightarrow> wf_cache (decrement_model_users path now st)"
  by (simp add: wf_cache_def decrement_model_users_def Let_def distinct_update split: option.splits)

lemma wf_fold_free: "wf_cache st \<Longrightarrow> wf_cache (fold free_model_resources ps st)"
  by (induction ps arbitrary: st) (simp_all add: wf_free)

lemma wf_apply: "wf_cache st \<Longrightarrow> wf_cache (apply_cache_op timeout op st)"
  by (cases op)
    (simp_all add: wf_register wf_get wf_mark wf_increment wf_decrement wf_fold_free
      cleanup_sweep_def clear_model_cache_def)

lemma wf_run: "wf_cache st \<Longrightarrow> wf_cache (run_cache_ops timeout ops st)"
  unfolding run_cache_ops_def
  by (induction ops arbitrary: st) (simp_all add: wf_apply)

lemma wf_empty: "wf_cache empty_cache"
  by (simp add: wf_cache_def empty_cache_def)

lemma users_nonneg_empty: "users_nonneg empty_cache"
  by (simp add: users_nonneg_def empty_cache_def)

text \<open>
  A count is at most the number of operations applied since the cache was empty: in a
  sequence of fewer than \<open>2 ^ 31\<close> operations no count leaves the range of a 32-bit
  \<open>int\<close>, and the unbounded counter of the model is the counter of the code.
\<close>

lemma users_at_most_find:
  "users_at_most n st \<Longrightarrow> find_model st path = Some r \<Longrightarrow> active_users r \<le> n"
  by (auto simp: users_at_most_def find_model_def list_all_iff dest: map_of_SomeD)

lemma users_at_most_mono:
  "users_at_most n st \<Longrightarrow> n \<le> m \<Longrightarrow> users_at_most m st"
  by (fastforce simp: users_at_most_def list_all_iff)

lemma users_at_most_fold_free:
  "users_at_most n st \<Longrightarrow> users_at_most n (fold free_model_resources ps st)"
proof (induction ps arbitrary: st)
  case Nil
  then show ?case by simp
next
  case (Cons p ps)
  have "users_at_most n (free_model_resources p st)"
    using Cons.prems
    by (auto simp: free_model_resources_def users_at_most_def intro!: list_all_delete
        split: option.splits)
  then show ?case using Cons.IH by simp
qed

lemma users_at_most_apply:
  assumes "users_at_most n st" "0 \<le> n"
  shows "users_at_most (n + 1) (apply_cache_op timeout op st)"
proof (cases op)
  case (Register path m c now)
  then show ?thesis using assms
    by (auto simp: register_model_def users_at_most_def new_ModelResources_def
        intro!: list_all_update dest: users_at_most_find [unfolded users_at_most_def]
        intro: users_at_most_mono [unfolded users_at_most_def] split: option.splits)
next
  case (Acquire path now)
  then show ?thesis using assms
    by (auto simp: get_cached_model_def users_at_most_def Let_def
        intro!: list_all_update dest: users_at_most_find [unfolded users_at_most_def]
        intro: users_at_most_mono [unfolded users_at_most_def] split: option.splits)
next
  case (Mark_used path now)
  then show ?thesis using assms
    by (auto simp: mark_model_used_def users_at_most_def
        intro!: list_all_update dest: users_at_most_find [unfolded users_at_most_def]
        intro: users_at_most_mono [unfolded users_at_most_def] split: option.splits)
next
  case (Increment path)
  then show ?thesis using assms
    by (auto simp: increment_model_users_def users_at_most_def
        intro!: list_all_update dest: users_at_most_find [unfolded users_at_most_def]
        intro: users_at_most_mono [unfolded users_at_most_def] split: option.splits)
next
  case (Decrement path now)
  then show ?thesis using assms
    by (auto simp: decrement_model_users_def users_at_most_def Let_def
        intro!: list_all_update dest: users_at_most_find [unfolded users_at_most_def]
        intro: users_at_most_mono [unfolded users_at_most_def] split: option.splits)
next
  case (Sweep now)
  then show ?thesis
    using users_at_most_fold_free [OF users_at_most_mono [OF assms(1), of "n + 1"]]
    by (simp add: cleanup_sweep_def)
next
  case (Clear force_clear)
  then show ?thesis
    using users_at_most_fold_free [OF users_at_most_mono [OF assms(1), of "n + 1"]]
    by (simp add: clear_model_cache_def)
qed

lemma users_at_most_run:
  "users_at_most n st \<Longrightarrow> 0 \<le> n \<Longrightarrow>
   users_at_most (n + int (length ops)) (run_cache_ops timeout ops st)"
  unfolding run_cache_ops_def
proof (induction ops arbitrary: n st)
  case Nil
  then show ?case by simp
next
  case (Cons op ops)
  have "users_at_most (n + 1) (apply_cache_op timeout op st)"
    by (rule users_at_most_apply [OF Cons.prems])
  from Cons.IH [OF this] Cons.prems(2)
  have "users_at_most (n + 1 + int (length ops))
          (fold (apply_cache_op timeout) ops (apply_cache_op timeout op st))"
    by simp
  moreover have "n + 1 + int (length ops) = n + int (length (op # ops))" by simp
  ultimately show ?case by (simp only: fold_simps o_apply)
qed

lemma active_users_at_most_operations:
  "find_model (run_cache_ops timeout ops empty_cache) path = Some r \<Longrightarrow>
   active_users r \<le> int (length ops)"
  using users_at_most_run [of 0 empty_cache ops timeout]
  by (auto simp: users_at_most_def [of 0] empty_cache_def dest: users_at_most_find)

text \<open>
  The loop of the janitor, pass after pass, never frees an entry that has active users.
\<close>

lemma cleanup_sweep_keeps_active:
  assumes "wf_cache st" "find_model st p = Some r" "active_users r > 0"
  shows "wf_cache (cleanup_sweep timeout now st) \<and>
         find_model (cleanup_sweep timeout now st) p = Some r"
proof -
  have "find_model (cleanup_sweep timeout now st) p = Some r"
    using find_model_filter [OF assms(1,2), of "\<lambda>k r. \<not> sweep_qualifies timeout now r"] assms(3)
    by (simp add: find_model_def [of "cleanup_sweep timeout now st"] sweep_cached [OF assms(1)]
        sweep_qualifies_def)
  then show ?thesis
    using wf_fold_free [OF assms(1)] by (simp add: cleanup_sweep_def)
qed

lemma cleanup_inactive_models_keeps_active:
  "wf_cache st \<Longrightarrow> find_model st p = Some r \<Longrightarrow> active_users r > 0 \<Longrightarrow>
   find_model (cleanup_inactive_models timeout wakes st) p = Some r"
  unfolding cleanup_inactive_models_def
proof (induction wakes arbitrary: st)
  case Nil
  then show ?case by simp
next
  case (Cons now wakes)
  from cleanup_sweep_keeps_active [OF Cons.prems, of timeout now]
  show ?case using Cons.IH [of "cleanup_sweep timeout now st"] Cons.prems(3) by simp
qed

text \<open>
  C3. Starting from the empty cache, or from any cache whose counts are non-negative,
  every sequence of register, acquire, mark-used, increment, decrement, sweep and clear
  operations leaves every \<open>active_users\<close> count non-negative. In particular
  \<open>decrement_model_users\<close> on an entry whose count is 0 leaves the count at 0 (and
  refreshes \<open>last_used\<close>).
\<close>

theorem active_users_never_negative:
  "users_nonneg (run_cache_ops timeout ops empty_cache)
   \<and> (users_nonneg st \<longrightarrow> users_nonneg (run_cache_ops timeout ops st))
   \<and> (\<forall>path r. find_model (run_cache_ops timeout ops empty_cache) path = Some r \<longrightarrow>
         0 \<le> active_users r)
   \<and> (\<forall>path now r. find_model st path = Some r \<and> active_users r = 0 \<longrightarrow>
         find_model (decrement_model_users path now st) path = Some (r\<lparr>last_used := now\<rparr>))"
proof -
  have a: "users_nonneg (run_cache_ops timeout ops empty_cache)"
    by (rule users_nonneg_run [OF users_nonneg_empty])
  have b: "users_nonneg st \<longrightarrow> users_nonneg (run_cache_ops timeout ops st)"
    by (simp add: users_nonneg_run)
  have c: "\<forall>path r. find_model (run_cache_ops timeout ops empty_cache) path = Some r \<longrightarrow>
         0 \<le> active_users r"
    using users_nonneg_find [OF a] by blast
  have d: "\<forall>path now r. find_model st path = Some r \<and> active_users r = 0 \<longrightarrow>
         find_model (decrement_model_users path now st) path = Some (r\<lparr>last_used := now\<rparr>)"
    by (simp add: decrement_model_users_def find_model_def update_conv')
  show ?thesis
    by (intro conjI; (rule a | rule b | rule c | rule d))
qed

theorem active_users_never_negative_witness:
  "users_nonneg example_cache
   \<and> users_nonneg (run_cache_ops 30
        [Decrement ''a.gguf'' 5, Decrement ''b.gguf'' 6, Decrement ''b.gguf'' 7, Sweep 8]
        example_cache)
   \<and> find_model (run_cache_ops 30
        [Register ''m.gguf'' 1 2 0, Decrement ''m.gguf'' 5, Acquire ''m.gguf'' 6,
         Decrement ''m.gguf'' 7, Decrement ''m.gguf'' 8] empty_cache) ''m.gguf'' =
       Some \<lparr>model = 1, ctx = 2, last_used = 8, active_users = 0\<rparr>
   \<and> find_model (decrement_model_users ''a.gguf'' 5 example_cache) ''a.gguf'' =
       Some \<lparr>model = 1, ctx = 2, last_used = 5, active_users = 0\<rparr>"
proof -
  have n: "users_nonneg example_cache"
    by (simp add: users_nonneg_def example_cache_def)
  have a: "find_model example_cache ''a.gguf'' =
             Some \<lparr>model = 1, ctx = 2, last_used = 0, active_users = 0\<rparr>"
    by (simp add: find_model_def example_cache_def)
  have m: "find_model (run_cache_ops 30
        [Register ''m.gguf'' 1 2 0, Decrement ''m.gguf'' 5, Acquire ''m.gguf'' 6,
         Decrement ''m.gguf'' 7, Decrement ''m.gguf'' 8] empty_cache) ''m.gguf'' =
       Some \<lparr>model = 1, ctx = 2, last_used = 8, active_users = 0\<rparr>"
    by (simp add: run_cache_ops_def empty_cache_def register_model_def find_model_def
        new_ModelResources_def decrement_model_users_def get_cached_model_def Let_def)
  note T = active_users_never_negative [of 30
      "[Decrement ''a.gguf'' 5, Decrement ''b.gguf'' 6, Decrement ''b.gguf'' 7, Sweep 8]"
      example_cache]
  from T have D: "\<And>path now r.
      find_model example_cache path = Some r \<and> active_users r = 0 \<Longrightarrow>
      find_model (decrement_model_users path now example_cache) path = Some (r\<lparr>last_used := now\<rparr>)"
    by blast
  from T n have U: "users_nonneg (run_cache_ops 30
        [Decrement ''a.gguf'' 5, Decrement ''b.gguf'' 6, Decrement ''b.gguf'' 7, Sweep 8]
        example_cache)"
    by blast
  have E: "find_model (decrement_model_users ''a.gguf'' 5 example_cache) ''a.gguf'' =
       Some \<lparr>model = 1, ctx = 2, last_used = 5, active_users = 0\<rparr>"
    using D [of "''a.gguf''" _ 5] a by simp
  show ?thesis using n m U E by simp
qed

subsection \<open>Registering and acquiring\<close>

text \<open>
  C6. \<open>register_model\<close> on a cached path only sets \<open>last_used\<close>: the stored model
  and context handles and \<open>active_users\<close> stay, the handles passed in are dropped. On
  a path that is not cached it inserts an entry with the handles passed in and
  \<open>active_users = 0\<close>. No other path changes and nothing is released. Registering
  twice for a path gives the state that registering once with the first handles gives,
  with the \<open>last_used\<close> of the second call.
\<close>

theorem register_model_idempotent:
  "(\<forall>r. find_model st path = Some r \<longrightarrow>
      find_model (register_model path m c now st) path = Some (r\<lparr>last_used := now\<rparr>))
   \<and> (find_model st path = None \<longrightarrow>
      find_model (register_model path m c now st) path =
        Some \<lparr>model = m, ctx = c, last_used = now, active_users = 0\<rparr>)
   \<and> (\<forall>q. q \<noteq> path \<longrightarrow> find_model (register_model path m c now st) q = find_model st q)
   \<and> released (register_model path m c now st) = released st
   \<and> register_model path m' c' now' (register_model path m c now st) =
       register_model path m c now' st"
  by (auto simp: register_model_def find_model_def update_conv' new_ModelResources_def
      split: option.splits)

theorem register_model_idempotent_witness:
  "find_model example_cache ''b.gguf'' =
     Some \<lparr>model = 3, ctx = 4, last_used = 0, active_users = 1\<rparr>
   \<and> find_model (register_model ''b.gguf'' 8 9 77 example_cache) ''b.gguf'' =
     Some \<lparr>model = 3, ctx = 4, last_used = 77, active_users = 1\<rparr>
   \<and> find_model example_cache ''n.gguf'' = None
   \<and> find_model (register_model ''n.gguf'' 8 9 77 example_cache) ''n.gguf'' =
     Some \<lparr>model = 8, ctx = 9, last_used = 77, active_users = 0\<rparr>
   \<and> find_model (register_model ''n.gguf'' 8 9 77 example_cache) ''b.gguf'' =
     Some \<lparr>model = 3, ctx = 4, last_used = 0, active_users = 1\<rparr>"
proof -
  have b: "find_model example_cache ''b.gguf'' =
     Some \<lparr>model = 3, ctx = 4, last_used = 0, active_users = 1\<rparr>"
    and n: "find_model example_cache ''n.gguf'' = None"
    by (simp_all add: find_model_def example_cache_def)
  have "find_model (register_model ''b.gguf'' 8 9 77 example_cache) ''b.gguf'' =
     Some \<lparr>model = 3, ctx = 4, last_used = 77, active_users = 1\<rparr>"
    using register_model_idempotent [of example_cache "''b.gguf''" 8 9 77] b by simp
  moreover have "find_model (register_model ''n.gguf'' 8 9 77 example_cache) ''n.gguf'' =
     Some \<lparr>model = 8, ctx = 9, last_used = 77, active_users = 0\<rparr>
    \<and> find_model (register_model ''n.gguf'' 8 9 77 example_cache) ''b.gguf'' =
     Some \<lparr>model = 3, ctx = 4, last_used = 0, active_users = 1\<rparr>"
    using register_model_idempotent [of example_cache "''n.gguf''" 8 9 77] b n by simp
  ultimately show ?thesis using b n by simp
qed

text \<open>
  C7. \<open>get_cached_model\<close> on a cached path returns the stored (model, context)
  pair, sets \<open>last_used\<close> and adds exactly 1 to \<open>active_users\<close>; the set of keys,
  the other entries and the release log stay as they were. On a path that is not cached
  it returns \<open>(nullptr, nullptr)\<close> and the state is unchanged.
\<close>

theorem get_cached_model_acquires:
  "(\<forall>r. find_model st path = Some r \<longrightarrow>
      fst (get_cached_model path now st) = (model r, ctx r)
      \<and> find_model (snd (get_cached_model path now st)) path =
          Some (r\<lparr>last_used := now, active_users := active_users r + 1\<rparr>)
      \<and> (\<forall>q. q \<noteq> path \<longrightarrow>
            find_model (snd (get_cached_model path now st)) q = find_model st q)
      \<and> map fst (cached_models (snd (get_cached_model path now st))) =
          map fst (cached_models st)
      \<and> released (snd (get_cached_model path now st)) = released st)
   \<and> (find_model st path = None \<longrightarrow>
        get_cached_model path now st = ((nullptr, nullptr), st))"
proof (cases "find_model st path")
  case None
  then show ?thesis by (simp add: get_cached_model_def)
next
  case (Some r)
  then have "path \<in> set (map fst (cached_models st))"
    by (auto simp: find_model_def dest!: map_of_SomeD intro: rev_image_eqI)
  then have "map fst (cached_models (snd (get_cached_model path now st))) =
          map fst (cached_models st)"
    using Some by (simp add: get_cached_model_def Let_def update_keys)
  then show ?thesis using Some
    by (simp add: get_cached_model_def find_model_def update_conv' Let_def)
qed

theorem get_cached_model_acquires_witness:
  "find_model example_cache ''b.gguf'' =
     Some \<lparr>model = 3, ctx = 4, last_used = 0, active_users = 1\<rparr>
   \<and> fst (get_cached_model ''b.gguf'' 77 example_cache) = (3, 4)
   \<and> find_model (snd (get_cached_model ''b.gguf'' 77 example_cache)) ''b.gguf'' =
     Some \<lparr>model = 3, ctx = 4, last_used = 77, active_users = 2\<rparr>
   \<and> find_model (snd (get_cached_model ''b.gguf'' 77 example_cache)) ''a.gguf'' =
     Some \<lparr>model = 1, ctx = 2, last_used = 0, active_users = 0\<rparr>
   \<and> find_model example_cache ''n.gguf'' = None
   \<and> get_cached_model ''n.gguf'' 77 example_cache = ((nullptr, nullptr), example_cache)"
proof -
  have b: "find_model example_cache ''b.gguf'' =
     Some \<lparr>model = 3, ctx = 4, last_used = 0, active_users = 1\<rparr>"
    and a: "find_model example_cache ''a.gguf'' =
     Some \<lparr>model = 1, ctx = 2, last_used = 0, active_users = 0\<rparr>"
    and n: "find_model example_cache ''n.gguf'' = None"
    by (simp_all add: find_model_def example_cache_def)
  have "fst (get_cached_model ''b.gguf'' 77 example_cache) = (3, 4)
   \<and> find_model (snd (get_cached_model ''b.gguf'' 77 example_cache)) ''b.gguf'' =
     Some \<lparr>model = 3, ctx = 4, last_used = 77, active_users = 2\<rparr>
   \<and> find_model (snd (get_cached_model ''b.gguf'' 77 example_cache)) ''a.gguf'' =
     Some \<lparr>model = 1, ctx = 2, last_used = 0, active_users = 0\<rparr>"
    using get_cached_model_acquires [of example_cache "''b.gguf''" 77] a b by simp
  moreover have "get_cached_model ''n.gguf'' 77 example_cache = ((nullptr, nullptr), example_cache)"
    using get_cached_model_acquires [of example_cache "''n.gguf''" 77] n by simp
  ultimately show ?thesis using b n by simp
qed

section \<open>Properties of the task queue and the worker\<close>

subsection \<open>Order of the tasks\<close>

lemma check_and_execute_tasks [simp]: "tasks (check_and_execute t st) = tasks st"
  by (simp add: check_and_execute_def split: task_result.splits)

lemma check_and_execute_dequeued:
  "map fst (history (check_and_execute t st)) = map fst (history st) @ [t]"
  by (simp add: check_and_execute_def split: task_result.splits)

lemma apply_event_order:
  assumes "apply_event ev (cur, st) = (cur', st')"
  shows "map fst (history st') @ in_hand cur' @ tasks st' =
         map fst (history st) @ in_hand cur @ tasks st @ enqueued [ev]"
proof (cases ev)
  case (Enqueue body rid)
  then show ?thesis using assms by (auto simp: enqueue_def)
next
  case (Cancel rid)
  then show ?thesis using assms by (auto simp: cancel_def)
next
  case Worker
  show ?thesis
  proof (cases cur)
    case None
    then show ?thesis using Worker assms
      by (auto simp: wait_and_dequeue_def in_hand_def split: list.splits if_splits)
  next
    case (Some t)
    then show ?thesis using Worker assms
      by (auto simp: in_hand_def check_and_execute_dequeued)
  qed
qed

lemma enqueued_append: "enqueued (xs @ ys) = enqueued xs @ enqueued ys"
  by (induction xs rule: enqueued.induct) simp_all

lemma run_events_order:
  "run_events evs (cur, st) = (cur', st') \<Longrightarrow>
   map fst (history st') @ in_hand cur' @ tasks st' =
   map fst (history st) @ in_hand cur @ tasks st @ enqueued evs"
proof (induction evs arbitrary: cur st)
  case Nil
  then show ?case by (simp add: run_events_def)
next
  case (Cons ev evs)
  obtain c1 s1 where s1: "apply_event ev (cur, st) = (c1, s1)" by (cases "apply_event ev (cur, st)")
  then have "run_events evs (c1, s1) = (cur', st')"
    using Cons.prems by (simp add: run_events_def)
  from Cons.IH [OF this] apply_event_order [OF s1]
  show ?case using enqueued_append [of "[ev]" evs] by simp
qed

lemma no_flag_check:
  "no_flag_set st \<Longrightarrow> no_flag_set (check_and_execute t st)"
  by (auto simp: no_flag_set_def check_and_execute_def is_cancelled_def split: task_result.splits)

lemma none_skipped_check:
  "no_flag_set st \<Longrightarrow> none_skipped st \<Longrightarrow> none_skipped (check_and_execute t st)"
  by (auto simp: no_flag_set_def none_skipped_def check_and_execute_def split: task_result.splits)

lemma apply_event_none_skipped:
  assumes "apply_event ev (cur, st) = (cur', st')" "\<not> is_cancel ev"
    "no_flag_set st" "none_skipped st"
  shows "no_flag_set st' \<and> none_skipped st'"
proof (cases ev)
  case (Enqueue body rid)
  then show ?thesis using assms
    by (auto simp: enqueue_def no_flag_set_def none_skipped_def is_cancelled_def)
next
  case (Cancel rid)
  then show ?thesis using assms by simp
next
  case Worker
  show ?thesis
  proof (cases cur)
    case None
    then show ?thesis using Worker assms
      by (auto simp: wait_and_dequeue_def no_flag_set_def none_skipped_def is_cancelled_def
          split: list.splits if_splits)
  next
    case (Some t)
    then show ?thesis using Worker assms
      by (auto simp: no_flag_check none_skipped_check)
  qed
qed

lemma run_events_none_skipped:
  "run_events evs (cur, st) = (cur', st') \<Longrightarrow> list_all (\<lambda>ev. \<not> is_cancel ev) evs \<Longrightarrow>
   no_flag_set st \<Longrightarrow> none_skipped st \<Longrightarrow> no_flag_set st' \<and> none_skipped st'"
proof (induction evs arbitrary: cur st)
  case Nil
  then show ?case by (simp add: run_events_def)
next
  case (Cons ev evs)
  obtain c1 s1 where s1: "apply_event ev (cur, st) = (c1, s1)" by (cases "apply_event ev (cur, st)")
  then have r: "run_events evs (c1, s1) = (cur', st')"
    using Cons.prems by (simp add: run_events_def)
  have "no_flag_set s1 \<and> none_skipped s1"
    using apply_event_none_skipped [OF s1] Cons.prems by simp
  then show ?case using Cons.IH [OF r] Cons.prems by simp
qed

lemma replay_snoc:
  "replay (h @ [(t, d)]) w =
     (if d = Skipped then replay h w else result_world (task t (replay h w)))"
  by (induction h w rule: replay.induct) simp_all

lemma check_and_execute_world:
  "replay (history st) w0 = world st \<Longrightarrow>
   replay (history (check_and_execute t st)) w0 = world (check_and_execute t st)"
  by (simp add: check_and_execute_def replay_snoc result_world_def split: task_result.splits)

lemma apply_event_world:
  assumes "apply_event ev (cur, st) = (cur', st')" "replay (history st) w0 = world st"
  shows "replay (history st') w0 = world st'"
proof (cases ev)
  case (Enqueue body rid)
  then show ?thesis using assms by (auto simp: enqueue_def)
next
  case (Cancel rid)
  then show ?thesis using assms by (auto simp: cancel_def)
next
  case Worker
  show ?thesis
  proof (cases cur)
    case None
    then show ?thesis using Worker assms
      by (auto simp: wait_and_dequeue_def split: list.splits if_splits)
  next
    case (Some t)
    then show ?thesis using Worker assms
      by (auto simp: check_and_execute_world)
  qed
qed

lemma run_events_world:
  "run_events evs (cur, st) = (cur', st') \<Longrightarrow> replay (history st) w0 = world st \<Longrightarrow>
   replay (history st') w0 = world st'"
proof (induction evs arbitrary: cur st)
  case Nil
  then show ?case by (simp add: run_events_def)
next
  case (Cons ev evs)
  obtain c1 s1 where s1: "apply_event ev (cur, st) = (c1, s1)" by (cases "apply_event ev (cur, st)")
  then have r: "run_events evs (c1, s1) = (cur', st')"
    using Cons.prems by (simp add: run_events_def)
  show ?case
    by (rule Cons.IH [OF r]) (rule apply_event_world [OF s1 Cons.prems(2)])
qed

lemma process_inference_drains:
  "tasks (final_state (process_inference st)) = []
   \<and> map fst (history (final_state (process_inference st))) = map fst (history st) @ tasks st
   \<and> (process_inference st = Exits (final_state (process_inference st)) \<longleftrightarrow> done_flag st)
   \<and> (process_inference st = Waits (final_state (process_inference st)) \<longleftrightarrow> \<not> done_flag st)
   \<and> (replay (history st) w0 = world st \<longrightarrow>
        replay (history (final_state (process_inference st))) w0 =
          world (final_state (process_inference st)))"
proof (induction st rule: process_inference.induct)
  case (1 st)
  show ?case
  proof (cases "tasks st")
    case Nil
    then show ?thesis
      by (simp add: process_inference.simps [of st] wait_and_dequeue_def final_state_def)
  next
    case (Cons t ts)
    let ?st1 = "st\<lparr>tasks := ts\<rparr>"
    have w: "wait_and_dequeue st = Dequeued t ?st1"
      using Cons by (simp add: wait_and_dequeue_def)
    have p: "process_inference st = process_inference (check_and_execute t ?st1)"
      using w by (simp add: process_inference.simps [of st])
    have d: "done_flag (check_and_execute t ?st1) = done_flag st"
      by (simp add: check_and_execute_def split: task_result.splits)
    have r: "replay (history st) w0 = world st \<Longrightarrow>
        replay (history (check_and_execute t ?st1)) w0 = world (check_and_execute t ?st1)"
      using check_and_execute_world [of ?st1 w0 t] by simp
    show ?thesis
      using "1.IH" [OF w] Cons r
      unfolding p d
      by (simp add: check_and_execute_dequeued)
  qed
qed

lemmas queue_eval = run_events_def init_queue_def example_queue_def ok_task_def bad_task_def
  enqueue_def cancel_def is_cancelled_def wait_and_dequeue_def check_and_execute_def
  dispositions_def in_hand_def cerr_line_def

text \<open>
  C5. Whatever the interleaving of enqueue and cancel calls with the steps of the single
  worker, the tasks the worker has taken so far, the one it holds and the ones still
  queued are, in this order, the enqueued tasks in the order of their enqueue calls: the
  worker takes them first-in first-out, one at a time. The state the bodies act on is the
  result of running the bodies of the taken tasks one after the other in that order. When
  no cancel call was made, none of them was skipped. Left alone, the loop empties the
  queue in the same order.
\<close>

theorem worker_fifo:
  assumes "run_events evs (None, init_queue w0) = (cur, st)"
  shows "map fst (history st) @ in_hand cur @ tasks st = enqueued evs
       \<and> world st = replay (history st) w0
       \<and> (list_all (\<lambda>ev. \<not> is_cancel ev) evs \<longrightarrow> none_skipped st)
       \<and> (cur = None \<longrightarrow>
            tasks (final_state (process_inference st)) = [] \<and>
            map fst (history (final_state (process_inference st))) = enqueued evs \<and>
            world (final_state (process_inference st)) =
              replay (history (final_state (process_inference st))) w0)"
proof -
  have a: "map fst (history st) @ in_hand cur @ tasks st = enqueued evs"
    using run_events_order [OF assms] by (simp add: init_queue_def in_hand_def)
  have b: "replay (history st) w0 = world st"
    by (rule run_events_world [OF assms]) (simp add: init_queue_def)
  have c: "list_all (\<lambda>ev. \<not> is_cancel ev) evs \<longrightarrow> none_skipped st"
    using run_events_none_skipped [OF assms]
    by (simp add: init_queue_def no_flag_set_def none_skipped_def is_cancelled_def)
  have d: "cur = None \<longrightarrow>
            tasks (final_state (process_inference st)) = [] \<and>
            map fst (history (final_state (process_inference st))) = enqueued evs \<and>
            world (final_state (process_inference st)) =
              replay (history (final_state (process_inference st))) w0"
    using process_inference_drains [of st w0] a b by (auto simp: in_hand_def)
  show ?thesis using a b c d by simp
qed

theorem worker_fifo_witness:
  "map request_id
     (map fst (history (snd (run_events
        [Enqueue (task (ok_task 1)) 1, Enqueue (task (ok_task 2)) 2, Worker, Worker,
         Enqueue (task (ok_task 3)) 3, Worker] (None, init_queue [])))) @
      in_hand (fst (run_events
        [Enqueue (task (ok_task 1)) 1, Enqueue (task (ok_task 2)) 2, Worker, Worker,
         Enqueue (task (ok_task 3)) 3, Worker] (None, init_queue []))) @
      tasks (snd (run_events
        [Enqueue (task (ok_task 1)) 1, Enqueue (task (ok_task 2)) 2, Worker, Worker,
         Enqueue (task (ok_task 3)) 3, Worker] (None, init_queue [])))) = [1, 2, 3]
   \<and> list_all (\<lambda>ev. \<not> is_cancel ev)
        [Enqueue (task (ok_task 1)) 1, Enqueue (task (ok_task 2)) 2, Enqueue (task (ok_task 3)) 3]
   \<and> fst (run_events
        [Enqueue (task (ok_task 1)) 1, Enqueue (task (ok_task 2)) 2, Enqueue (task (ok_task 3)) 3]
        (None, init_queue [])) = None
   \<and> dispositions (final_state (process_inference (snd (run_events
        [Enqueue (task (ok_task 1)) 1, Enqueue (task (ok_task 2)) 2, Enqueue (task (ok_task 3)) 3]
        (None, init_queue []))))) = [(1, Executed), (2, Executed), (3, Executed)]
   \<and> map request_id (map fst (history (final_state (process_inference (snd (run_events
        [Enqueue (task (ok_task 1)) 1, Enqueue (task (ok_task 2)) 2, Enqueue (task (ok_task 3)) 3]
        (None, init_queue []))))))) = [1, 2, 3]
   \<and> world (final_state (process_inference (snd (run_events
        [Enqueue (task (ok_task 1)) 1, Enqueue (task (ok_task 2)) 2, Enqueue (task (ok_task 3)) 3]
        (None, init_queue []))))) = [1, 2, 3]"
proof -
  let ?e1 = "[Enqueue (task (ok_task 1)) 1, Enqueue (task (ok_task 2)) 2, Worker, Worker,
         Enqueue (task (ok_task 3)) 3, Worker]"
  let ?e2 = "[Enqueue (task (ok_task 1)) 1, Enqueue (task (ok_task 2)) 2,
         Enqueue (task (ok_task 3)) 3]"
  let ?r1 = "run_events ?e1 (None, init_queue ([] :: int list))"
  let ?r2 = "run_events ?e2 (None, init_queue ([] :: int list))"
  have h1: "?r1 = (fst ?r1, snd ?r1)" and h2: "?r2 = (fst ?r2, snd ?r2)" by simp_all
  note T1 = worker_fifo [OF h1]
  note T2 = worker_fifo [OF h2]
  have n: "fst ?r2 = None" by (simp add: run_events_def)
  have c: "list_all (\<lambda>ev. \<not> is_cancel ev) ?e2" by simp
  have a: "map request_id (map fst (history (snd ?r1)) @ in_hand (fst ?r1) @ tasks (snd ?r1)) = [1, 2, 3]"
    using T1 by simp
  let ?f = "final_state (process_inference (snd ?r2))"
  have d: "map fst (history ?f) = enqueued ?e2" using T2 n by blast
  have f: "dispositions ?f = [(1, Executed), (2, Executed), (3, Executed)]" "world ?f = [1, 2, 3]"
    by (simp_all add: queue_eval process_inference.simps final_state_def)
  have g: "map request_id (map fst (history ?f)) = [1, 2, 3]"
    using d by (simp add: ok_task_def)
  show ?thesis using a n c f g by simp
qed

subsection \<open>Cancellation\<close>

text \<open>
  Run without interference, the steps of the finer model are the check and execution of
  the coarser one.
\<close>

lemma check_and_execute_steps:
  "check_and_execute t st =
     (if is_cancelled (request_id t) st
      then snd (worker_step (At_erase t) st)
      else call_task t st)"
  by (simp add: check_and_execute_def call_task_def)

lemma worker_steps_refine:
  "run_steps [Worker_step, Worker_step, Worker_step] (At_find t, st) =
     (case cancel_flags st (request_id t) of
        None \<Rightarrow> worker_step At_wait (check_and_execute t st)
      | Some b \<Rightarrow> (At_wait, check_and_execute t st))"
  by (simp add: run_steps_def check_and_execute_def call_task_def is_cancelled_def
      split: option.splits)









subsection \<open>A failing task\<close>

text \<open>
  C8. When the body of the task at the front of the queue throws, the worker catches the
  exception and writes one line to \<open>std::cerr\<close>; apart from the effects of the body
  itself, the notification of the janitor and the record of the task, the state is the
  one after the dequeue: the rest of the queue and \<open>cancel_flags\<close> are untouched. The
  loop goes on from that state: its next step takes the next queued task, and it ends
  only after it has taken every task of the queue.
\<close>

theorem task_failure_contained:
  assumes "tasks st = t # rest"
    and "\<not> is_cancelled (request_id t) st"
    and "task t (world st) = Throws e w"
  shows "run_events [Worker, Worker] (None, st) =
           (None, st\<lparr>tasks := rest, world := w, history := history st @ [(t, Failed)],
                     cerr := cerr st @ [cerr_line e],
                     cleanup_notified := cleanup_notified st + 1\<rparr>)
       \<and> process_inference st =
           process_inference
             (st\<lparr>tasks := rest, world := w, history := history st @ [(t, Failed)],
                 cerr := cerr st @ [cerr_line e],
                 cleanup_notified := cleanup_notified st + 1\<rparr>)
       \<and> (\<forall>t' rest'. rest = t' # rest' \<longrightarrow>
            run_events [Worker, Worker, Worker] (None, st) =
              (Some t', st\<lparr>tasks := rest', world := w, history := history st @ [(t, Failed)],
                     cerr := cerr st @ [cerr_line e],
                     cleanup_notified := cleanup_notified st + 1\<rparr>))
       \<and> tasks (final_state (process_inference st)) = []
       \<and> map fst (history (final_state (process_inference st))) =
           map fst (history st) @ t # rest"
proof -
  let ?st' = "st\<lparr>tasks := rest, world := w, history := history st @ [(t, Failed)],
                     cerr := cerr st @ [cerr_line e],
                     cleanup_notified := cleanup_notified st + 1\<rparr>"
  have w1: "wait_and_dequeue st = Dequeued t (st\<lparr>tasks := rest\<rparr>)"
    using assms(1) by (simp add: wait_and_dequeue_def)
  have x: "check_and_execute t (st\<lparr>tasks := rest\<rparr>) = ?st'"
    using assms(2,3) by (simp add: check_and_execute_def is_cancelled_def)
  have a: "run_events [Worker, Worker] (None, st) = (None, ?st')"
    using w1 x by (simp add: run_events_def)
  have b: "process_inference st = process_inference ?st'"
    using w1 x by (simp add: process_inference.simps [of st])
  have c: "\<forall>t' rest'. rest = t' # rest' \<longrightarrow>
            run_events [Worker, Worker, Worker] (None, st) =
              (Some t', st\<lparr>tasks := rest', world := w, history := history st @ [(t, Failed)],
                     cerr := cerr st @ [cerr_line e],
                     cleanup_notified := cleanup_notified st + 1\<rparr>)"
  proof (intro allI impI)
    fix t' rest'
    assume r: "rest = t' # rest'"
    have "run_events [Worker, Worker, Worker] (None, st) =
          apply_event Worker (run_events [Worker, Worker] (None, st))"
      by (simp add: run_events_def)
    also have "\<dots> = apply_event Worker (None, ?st')"
      by (simp only: a)
    also have "\<dots> = (Some t', st\<lparr>tasks := rest', world := w,
                     history := history st @ [(t, Failed)],
                     cerr := cerr st @ [cerr_line e],
                     cleanup_notified := cleanup_notified st + 1\<rparr>)"
      using r by (simp add: wait_and_dequeue_def)
    finally show "run_events [Worker, Worker, Worker] (None, st) =
              (Some t', st\<lparr>tasks := rest', world := w, history := history st @ [(t, Failed)],
                     cerr := cerr st @ [cerr_line e],
                     cleanup_notified := cleanup_notified st + 1\<rparr>)" .
  qed
  have d: "tasks (final_state (process_inference st)) = []
       \<and> map fst (history (final_state (process_inference st))) =
           map fst (history st) @ t # rest"
    using process_inference_drains [of st "world st"] assms(1) by simp
  show ?thesis
    by (intro conjI; (rule a | rule b | rule c | rule d [THEN conjunct1] | rule d [THEN conjunct2]))
qed

theorem task_failure_contained_witness:
  "tasks (example_queue [bad_task 1, ok_task 2]) = bad_task 1 # [ok_task 2]
   \<and> \<not> is_cancelled (request_id (bad_task 1)) (example_queue [bad_task 1, ok_task 2])
   \<and> task (bad_task 1) (world (example_queue [bad_task 1, ok_task 2])) =
        Throws (Std_exception ''boom'') [- 1]
   \<and> cerr (snd (run_events [Worker, Worker] (None, example_queue [bad_task 1, ok_task 2]))) =
        [''[InferenceQueue] Exception in task execution: boom'']
   \<and> map request_id (tasks (snd (run_events [Worker, Worker]
        (None, example_queue [bad_task 1, ok_task 2])))) = [2]
   \<and> cancel_flags (snd (run_events [Worker, Worker]
        (None, example_queue [bad_task 1, ok_task 2]))) =
       cancel_flags (example_queue [bad_task 1, ok_task 2])
   \<and> map request_id (in_hand (fst (run_events [Worker, Worker, Worker]
        (None, example_queue [bad_task 1, ok_task 2])))) = [2]
   \<and> map request_id (map fst (history (final_state (process_inference
        (example_queue [bad_task 1, ok_task 2]))))) = [1, 2]
   \<and> dispositions (final_state (process_inference (example_queue [bad_task 1, ok_task 2]))) =
        [(1, Failed), (2, Executed)]
   \<and> world (final_state (process_inference (example_queue [bad_task 1, ok_task 2]))) = [- 1, 2]"
proof -
  let ?st = "example_queue [bad_task 1, ok_task 2]"
  have h1: "tasks ?st = bad_task 1 # [ok_task 2]"
    by (simp add: example_queue_def)
  have h2: "\<not> is_cancelled (request_id (bad_task 1)) ?st"
    by (simp add: example_queue_def init_queue_def is_cancelled_def)
  have h3: "task (bad_task 1) (world ?st) = Throws (Std_exception ''boom'') [- 1]"
    by (simp add: example_queue_def init_queue_def bad_task_def)
  note T = task_failure_contained [OF h1 h2 h3]
  have a: "cerr (snd (run_events [Worker, Worker] (None, ?st))) =
        [''[InferenceQueue] Exception in task execution: boom'']"
    "map request_id (tasks (snd (run_events [Worker, Worker] (None, ?st)))) = [2]"
    "cancel_flags (snd (run_events [Worker, Worker] (None, ?st))) = cancel_flags ?st"
    using T [THEN conjunct1]
    by (simp_all add: cerr_line_def example_queue_def init_queue_def ok_task_def)
  have b: "map request_id (in_hand (fst (run_events [Worker, Worker, Worker] (None, ?st)))) = [2]"
    using T [THEN conjunct2, THEN conjunct2, THEN conjunct1, rule_format, of "ok_task 2" "[]"]
    by (simp add: in_hand_def ok_task_def)
  have c: "map request_id (map fst (history (final_state (process_inference ?st)))) = [1, 2]"
    using T [THEN conjunct2, THEN conjunct2, THEN conjunct2, THEN conjunct2]
    by (simp add: example_queue_def init_queue_def ok_task_def bad_task_def)
  have d: "dispositions (final_state (process_inference ?st)) = [(1, Failed), (2, Executed)]"
    "world (final_state (process_inference ?st)) = [- 1, 2]"
    by (simp_all add: queue_eval process_inference.simps final_state_def)
  show ?thesis using h1 h2 h3 a b c d by simp
qed

section \<open>Properties of the tokenizer's model cache\<close>

subsection \<open>Eviction\<close>

lemma fold_delete_filter:
  "fold AList.delete ks al = filter (\<lambda>(k, v). k \<notin> set ks) al"
proof (induction ks arbitrary: al)
  case Nil
  then show ?case by simp
next
  case (Cons k ks)
  have "fold AList.delete (k # ks) al =
        filter (\<lambda>(k', v). k' \<notin> set ks) (AList.delete k al)"
    using Cons.IH [of "AList.delete k al"] by simp
  also have "\<dots> = filter (\<lambda>(k', v). k' \<notin> set ks) (filter (\<lambda>(k', v). k \<noteq> k') al)"
    by (simp only: AList.delete_eq)
  also have "\<dots> = filter (\<lambda>(k', v). k' \<notin> set (k # ks)) al"
    by (auto intro: filter_cong)
  finally show ?case .
qed

lemma cleanup_cache_filter:
  assumes "wf_model_cache st"
  shows "model_cache (cleanup_cache now st) =
         filter (\<lambda>(key, e). \<not> expired now e) (model_cache st)"
proof -
  have d: "distinct (map fst (model_cache st))"
    using assms by (simp add: wf_model_cache_def)
  let ?to_erase = "map fst (filter (\<lambda>(key, e). expired now e) (model_cache st))"
  have "filter (\<lambda>(k, v). k \<notin> set ?to_erase) (model_cache st) =
        filter (\<lambda>(key, e). \<not> expired now e) (model_cache st)"
  proof (rule filter_cong [OF refl])
    fix x assume x: "x \<in> set (model_cache st)"
    obtain k e where ke: "x = (k, e)" by (cases x)
    have "k \<in> set ?to_erase \<longleftrightarrow> expired now e"
      using x ke d by (auto simp: image_iff dest: eq_key_imp_eq_value)
    then show "(case x of (k, v) \<Rightarrow> k \<notin> set ?to_erase) = (case x of (key, e) \<Rightarrow> \<not> expired now e)"
      using ke by simp
  qed
  then show ?thesis
    by (simp add: cleanup_cache_def Let_def fold_delete_filter)
qed

lemma cleanup_cache_loads [simp]: "loads (cleanup_cache now st) = loads st"
  by (simp add: cleanup_cache_def Let_def)

lemma cache_find_cleanup:
  assumes "wf_model_cache st"
  shows "cache_find (cleanup_cache now st) p =
         (case cache_find st p of
            None \<Rightarrow> None
          | Some e \<Rightarrow> if expired now e then None else Some e)"
proof (cases "cache_find st p")
  case None
  then have "p \<notin> fst ` set (model_cache st)"
    by (simp add: cache_find_def map_of_eq_None_iff)
  then have "p \<notin> fst ` set (filter (\<lambda>(key, e). \<not> expired now e) (model_cache st))"
    by auto
  then have "map_of (filter (\<lambda>(key, e). \<not> expired now e) (model_cache st)) p = None"
    by (rule map_of_eq_None_iff [THEN iffD2])
  then show ?thesis using None
    by (simp add: cache_find_def cleanup_cache_filter [OF assms])
next
  case (Some e)
  then show ?thesis
    using map_of_filter_distinct [of "model_cache st" p e "\<lambda>k e. \<not> expired now e"] assms
    by (simp add: cache_find_def cleanup_cache_filter [OF assms] wf_model_cache_def)
qed

lemma cache_find_cleanup_None:
  "cache_find st p = None \<Longrightarrow> cache_find (cleanup_cache now st) p = None"
  by (auto simp: cache_find_def cleanup_cache_def Let_def fold_delete_filter map_of_eq_None_iff)

lemma expired_iff:
  assumes "last_access e \<le> now"
  shows "expired now e \<longleftrightarrow> 31 * ticks_per_second \<le> now - last_access e"
proof -
  have "0 < ticks_per_second" by (simp add: ticks_per_second_def)
  moreover have "0 \<le> now - last_access e" using assms by simp
  ultimately have "(31 \<le> duration_cast_seconds (now - last_access e)) =
                   (31 * ticks_per_second \<le> now - last_access e)"
    by (simp add: duration_cast_seconds_def sdiv_nonneg le_div_iff_int)
  then show ?thesis by (simp add: expired_def) linarith
qed

lemma get_or_load_hit:
  "cache_find (cleanup_cache now1 st) p = Some e \<Longrightarrow>
   get_or_load_model load now1 now2 p st =
     (entry_model e,
      (cleanup_cache now1 st)\<lparr>model_cache :=
         AList.update p (e\<lparr>last_access := now2\<rparr>) (model_cache (cleanup_cache now1 st))\<rparr>)"
  by (simp add: get_or_load_model_def Let_def)

lemma get_or_load_miss:
  "cache_find (cleanup_cache now1 st) p = None \<Longrightarrow>
   get_or_load_model load now1 now2 p st =
     (if load p = nullptr
      then (nullptr, (cleanup_cache now1 st)\<lparr>loads := loads st @ [p]\<rparr>)
      else (load p,
            (cleanup_cache now1 st)\<lparr>loads := loads st @ [p],
               model_cache := AList.update p \<lparr>entry_model = load p, last_access = now2\<rparr>
                 (model_cache (cleanup_cache now1 st))\<rparr>))"
  by (simp add: get_or_load_model_def Let_def)

text \<open>
  C9, as stated, fails. The claim says that a lookup evicts every entry whose elapsed time
  since the last access exceeds 30 seconds, so that requesting a path whose entry is
  older than that triggers a fresh load. The code compares the elapsed time cast to
  whole seconds: an entry last accessed 30.5 seconds ago has an elapsed time of more than
  30 seconds, and the lookup returns the cached handle without calling the loader.
\<close>

theorem entry_past_30_seconds_still_hit:
  "cache_find example_tokenizer ''x.gguf'' = Some \<lparr>entry_model = 7, last_access = 0\<rparr>
   \<and> 30 * ticks_per_second < 30500000000 - 0
   \<and> get_or_load_model (loads_as 9) 30500000000 30500000001 ''x.gguf'' example_tokenizer =
       (7, \<lparr>model_cache = [(''x.gguf'', \<lparr>entry_model = 7, last_access = 30500000001\<rparr>)],
            loads = []\<rparr>)"
  by (simp add: get_or_load_model_def cleanup_cache_def cache_find_def example_tokenizer_def
      expired_def duration_cast_seconds_def ticks_per_second_def signed_divide_int_def Let_def)

text \<open>
  C9, amended. On a well-formed cache every lookup first evicts exactly the entries whose
  elapsed time since the last access, truncated to whole seconds, exceeds 30, and only
  then serves the path: on a hit it sets \<open>last_access\<close> and returns the cached handle,
  on a miss it calls the loader and, when the load succeeds, inserts the model. With a
  clock that has not run backwards, requesting a path whose entry is at least 31 seconds
  old calls the loader anew, and requesting one whose entry is less than 31 seconds old
  is a hit.
\<close>

theorem get_or_load_model_evicts_then_serves:
  assumes "wf_model_cache st"
  shows "model_cache (cleanup_cache now1 st) =
           filter (\<lambda>(key, e). \<not> 30 < duration_cast_seconds (now1 - last_access e)) (model_cache st)
       \<and> (\<forall>e. cache_find (cleanup_cache now1 st) p = Some e \<longrightarrow>
             get_or_load_model load now1 now2 p st =
               (entry_model e,
                (cleanup_cache now1 st)\<lparr>model_cache :=
                   AList.update p (e\<lparr>last_access := now2\<rparr>)
                     (model_cache (cleanup_cache now1 st))\<rparr>))
       \<and> (cache_find (cleanup_cache now1 st) p = None \<and> load p \<noteq> nullptr \<longrightarrow>
             get_or_load_model load now1 now2 p st =
               (load p,
                (cleanup_cache now1 st)\<lparr>loads := loads st @ [p],
                   model_cache := AList.update p \<lparr>entry_model = load p, last_access = now2\<rparr>
                     (model_cache (cleanup_cache now1 st))\<rparr>))
       \<and> (\<forall>e. cache_find st p = Some e \<and> last_access e \<le> now1 \<and>
                31 * ticks_per_second \<le> now1 - last_access e \<longrightarrow>
             fst (get_or_load_model load now1 now2 p st) = load p \<and>
             loads (snd (get_or_load_model load now1 now2 p st)) = loads st @ [p])
       \<and> (\<forall>e. cache_find st p = Some e \<and> last_access e \<le> now1 \<and>
                now1 - last_access e < 31 * ticks_per_second \<longrightarrow>
             fst (get_or_load_model load now1 now2 p st) = entry_model e \<and>
             loads (snd (get_or_load_model load now1 now2 p st)) = loads st \<and>
             cache_find (snd (get_or_load_model load now1 now2 p st)) p =
               Some (e\<lparr>last_access := now2\<rparr>))"
proof -
  have a: "model_cache (cleanup_cache now1 st) =
           filter (\<lambda>(key, e). \<not> 30 < duration_cast_seconds (now1 - last_access e)) (model_cache st)"
    using cleanup_cache_filter [OF assms, of now1] by (simp add: expired_def)
  have b: "\<forall>e. cache_find (cleanup_cache now1 st) p = Some e \<longrightarrow>
             get_or_load_model load now1 now2 p st =
               (entry_model e,
                (cleanup_cache now1 st)\<lparr>model_cache :=
                   AList.update p (e\<lparr>last_access := now2\<rparr>)
                     (model_cache (cleanup_cache now1 st))\<rparr>)"
    by (simp add: get_or_load_hit)
  have c: "cache_find (cleanup_cache now1 st) p = None \<and> load p \<noteq> nullptr \<longrightarrow>
             get_or_load_model load now1 now2 p st =
               (load p,
                (cleanup_cache now1 st)\<lparr>loads := loads st @ [p],
                   model_cache := AList.update p \<lparr>entry_model = load p, last_access = now2\<rparr>
                     (model_cache (cleanup_cache now1 st))\<rparr>)"
    by (simp add: get_or_load_miss)
  have d: "fst (get_or_load_model load now1 now2 p st) = load p \<and>
             loads (snd (get_or_load_model load now1 now2 p st)) = loads st @ [p]"
    if "cache_find st p = Some e" "last_access e \<le> now1"
       "31 * ticks_per_second \<le> now1 - last_access e" for e
  proof -
    have "expired now1 e" using that by (simp add: expired_iff)
    then have "cache_find (cleanup_cache now1 st) p = None"
      using that(1) by (simp add: cache_find_cleanup [OF assms])
    then show ?thesis by (simp add: get_or_load_miss nullptr_def)
  qed
  have e: "fst (get_or_load_model load now1 now2 p st) = entry_model e \<and>
             loads (snd (get_or_load_model load now1 now2 p st)) = loads st \<and>
             cache_find (snd (get_or_load_model load now1 now2 p st)) p =
               Some (e\<lparr>last_access := now2\<rparr>)"
    if "cache_find st p = Some e" "last_access e \<le> now1"
       "now1 - last_access e < 31 * ticks_per_second" for e
  proof -
    have "\<not> expired now1 e" using that by (simp add: expired_iff)
    then have "cache_find (cleanup_cache now1 st) p = Some e"
      using that(1) by (simp add: cache_find_cleanup [OF assms])
    then show ?thesis by (simp add: get_or_load_hit cache_find_def update_conv')
  qed
  have d': "\<forall>e. cache_find st p = Some e \<and> last_access e \<le> now1 \<and>
                31 * ticks_per_second \<le> now1 - last_access e \<longrightarrow>
             fst (get_or_load_model load now1 now2 p st) = load p \<and>
             loads (snd (get_or_load_model load now1 now2 p st)) = loads st @ [p]"
    using d by blast
  have e': "\<forall>e. cache_find st p = Some e \<and> last_access e \<le> now1 \<and>
                now1 - last_access e < 31 * ticks_per_second \<longrightarrow>
             fst (get_or_load_model load now1 now2 p st) = entry_model e \<and>
             loads (snd (get_or_load_model load now1 now2 p st)) = loads st \<and>
             cache_find (snd (get_or_load_model load now1 now2 p st)) p =
               Some (e\<lparr>last_access := now2\<rparr>)"
    using e by blast
  show ?thesis
    by (intro conjI; (rule a | rule b | rule c | rule d' | rule e'))
qed

theorem get_or_load_model_evicts_then_serves_witness:
  "wf_model_cache example_tokenizer
   \<and> cache_find example_tokenizer ''x.gguf'' = Some \<lparr>entry_model = 7, last_access = 0\<rparr>
   \<and> model_cache (cleanup_cache 31000000000 example_tokenizer) = []
   \<and> fst (get_or_load_model (loads_as 9) 31000000000 31000000001 ''x.gguf'' example_tokenizer) = 9
   \<and> loads (snd (get_or_load_model (loads_as 9) 31000000000 31000000001 ''x.gguf''
        example_tokenizer)) = [''x.gguf'']
   \<and> fst (get_or_load_model (loads_as 9) 30999999999 31000000001 ''x.gguf'' example_tokenizer) = 7
   \<and> loads (snd (get_or_load_model (loads_as 9) 30999999999 31000000001 ''x.gguf''
        example_tokenizer)) = []
   \<and> cache_find (snd (get_or_load_model (loads_as 9) 30999999999 31000000001 ''x.gguf''
        example_tokenizer)) ''x.gguf'' = Some \<lparr>entry_model = 7, last_access = 31000000001\<rparr>"
proof -
  have wf: "wf_model_cache example_tokenizer"
    by (simp add: wf_model_cache_def example_tokenizer_def)
  have x: "cache_find example_tokenizer ''x.gguf'' = Some \<lparr>entry_model = 7, last_access = 0\<rparr>"
    by (simp add: cache_find_def example_tokenizer_def)
  note T1 = get_or_load_model_evicts_then_serves
    [OF wf, of 31000000000 "''x.gguf''" "loads_as 9" 31000000001]
  note T2 = get_or_load_model_evicts_then_serves
    [OF wf, of 30999999999 "''x.gguf''" "loads_as 9" 31000000001]
  have a: "model_cache (cleanup_cache 31000000000 example_tokenizer) = []"
    using T1 [THEN conjunct1]
    by (simp add: example_tokenizer_def duration_cast_seconds_def ticks_per_second_def
        signed_divide_int_def)
  have b: "fst (get_or_load_model (loads_as 9) 31000000000 31000000001 ''x.gguf''
             example_tokenizer) = 9
         \<and> loads (snd (get_or_load_model (loads_as 9) 31000000000 31000000001 ''x.gguf''
             example_tokenizer)) = [''x.gguf'']"
    using T1 [THEN conjunct2, THEN conjunct2, THEN conjunct2, THEN conjunct1, rule_format,
        of "\<lparr>entry_model = 7, last_access = 0\<rparr>"] x
    by (simp add: ticks_per_second_def loads_as_def example_tokenizer_def)
  have c: "fst (get_or_load_model (loads_as 9) 30999999999 31000000001 ''x.gguf''
             example_tokenizer) = 7
         \<and> loads (snd (get_or_load_model (loads_as 9) 30999999999 31000000001 ''x.gguf''
             example_tokenizer)) = []
         \<and> cache_find (snd (get_or_load_model (loads_as 9) 30999999999 31000000001 ''x.gguf''
             example_tokenizer)) ''x.gguf'' = Some \<lparr>entry_model = 7, last_access = 31000000001\<rparr>"
    using T2 [THEN conjunct2, THEN conjunct2, THEN conjunct2, THEN conjunct2, rule_format,
        of "\<lparr>entry_model = 7, last_access = 0\<rparr>"] x
    by (simp add: ticks_per_second_def example_tokenizer_def)
  show ?thesis using wf x a b c by simp
qed

subsection \<open>The result of \<open>fllama_tokenize\<close>\<close>

lemma unat_of_count:
  fixes n :: "32 word"
  assumes "0 \<le> sint n" "31 \<le> LENGTH('a::len)"
  shows "unat (word_of_int (sint n) :: 'a word) = nat (sint n)"
proof -
  have "sint n < 2 ^ 31" using sint_lt [of n] by simp
  moreover have "(2::int) ^ 31 \<le> 2 ^ LENGTH('a)"
    using assms(2) by (rule power_increasing) simp
  ultimately have lt: "sint n < 2 ^ LENGTH('a)" by linarith
  have "uint (word_of_int (sint n) :: 'a word) = sint n mod 2 ^ LENGTH('a)"
    by (rule uint_word_of_int)
  also have "\<dots> = sint n"
    using assms(1) lt by (rule mod_pos_pos_trivial)
  finally show ?thesis by (simp only: unat_eq_nat_uint)
qed

lemma unat_minus_one_size:
  "unat (word_of_int (- 1) :: 'a::len word) = 2 ^ LENGTH('a) - 1"
  by (simp add: unsigned_minus_1_eq_mask mask_eq_exp_minus_1)

lemma unat_scast_count:
  fixes n :: "32 word"
  assumes "0 \<le> sint n" "31 \<le> LENGTH('a::len)"
  shows "unat (scast n :: 'a word) = nat (sint n)"
proof -
  have "(scast n :: 'a word) = word_of_int (sint n)" by simp
  then show ?thesis using unat_of_count [OF assms] by (simp only:)
qed

lemma fllama_tokenize_cases:
  "fllama_tokenize load tok now1 now2 request st =
     (let g = get_or_load_model load now1 now2 (model_path request) st;
          n = tok (fst g) (input request) (length (input request) + 3)
      in if fst g = nullptr then (- 1, snd g)
         else if sint n < 0 then (0, snd g)
         else (scast n, snd g))"
  by (simp add: fllama_tokenize_def Let_def case_prod_beta)

lemma load_failure_not_cached:
  assumes "cache_find st p = None" "load p = nullptr"
  shows "get_or_load_model load now1 now2 p st =
           (nullptr, (cleanup_cache now1 st)\<lparr>loads := loads st @ [p]\<rparr>)"
  using assms by (simp add: get_or_load_miss cache_find_cleanup_None)

lemma cleanup_cache_loads_update:
  "cleanup_cache now (st\<lparr>loads := l\<rparr>) = (cleanup_cache now st)\<lparr>loads := l\<rparr>"
  by (simp add: cleanup_cache_def Let_def)

lemma get_or_load_loads:
  "loads (snd (get_or_load_model load now1 now2 p st)) =
     (if cache_find (cleanup_cache now1 st) p = None then loads st @ [p] else loads st)"
  by (cases "cache_find (cleanup_cache now1 st) p")
     (simp_all add: get_or_load_miss get_or_load_hit)

lemma failed_load_inserts_nothing:
  assumes "cache_find (cleanup_cache now1 st) p = None" "load p = nullptr"
  shows "get_or_load_model load now1 now2 p st =
           (nullptr, (cleanup_cache now1 st)\<lparr>loads := loads st @ [p]\<rparr>)"
  using assms by (simp add: get_or_load_miss)

text \<open>
  C10. When the model cannot be loaded, \<open>fllama_tokenize\<close> returns \<open>-1\<close> converted to
  \<open>size_t\<close>, which is \<open>2 ^ w - 1\<close> for the width \<open>w\<close> of \<open>size_t\<close>; when the
  tokenizer reports a negative count it returns 0; otherwise it returns the count (for a
  \<open>size_t\<close> of at least 31 bits, so that every non-negative \<open>int\<close> fits). The state
  it leaves is the one \<open>_get_or_load_model\<close> leaves. The loader is called exactly when
  the path is not cached after the sweep, which is the case when it was not cached before
  and when its entry has just been evicted. Whenever the loader is called and fails,
  nothing is inserted: the cache is the cleaned-up cache, the path is not cached, and the
  next lookup of the path calls the loader again.
\<close>

theorem fllama_tokenize_result:
  "(fst (get_or_load_model load now1 now2 (model_path request) st) = nullptr \<longrightarrow>
      unat (fst (fllama_tokenize load tok now1 now2 request st :: 'a::len word \<times> tokenizer_state)) =
        2 ^ LENGTH('a) - 1)
   \<and> (fst (get_or_load_model load now1 now2 (model_path request) st) \<noteq> nullptr \<and>
       sint (tok (fst (get_or_load_model load now1 now2 (model_path request) st))
              (input request) (length (input request) + 3)) < 0 \<longrightarrow>
      fst (fllama_tokenize load tok now1 now2 request st :: 'a word \<times> tokenizer_state) = 0)
   \<and> (fst (get_or_load_model load now1 now2 (model_path request) st) \<noteq> nullptr \<and>
       0 \<le> sint (tok (fst (get_or_load_model load now1 now2 (model_path request) st))
              (input request) (length (input request) + 3)) \<and>
       31 \<le> LENGTH('a) \<longrightarrow>
      unat (fst (fllama_tokenize load tok now1 now2 request st :: 'a word \<times> tokenizer_state)) =
        nat (sint (tok (fst (get_or_load_model load now1 now2 (model_path request) st))
              (input request) (length (input request) + 3))))
   \<and> snd (fllama_tokenize load tok now1 now2 request st :: 'a word \<times> tokenizer_state) =
       snd (get_or_load_model load now1 now2 (model_path request) st)
   \<and> loads (snd (get_or_load_model load now1 now2 p st)) =
       (if cache_find (cleanup_cache now1 st) p = None then loads st @ [p] else loads st)
   \<and> (cache_find st p = None \<longrightarrow> cache_find (cleanup_cache now1 st) p = None)
   \<and> (\<forall>e. wf_model_cache st \<and> cache_find st p = Some e \<and> expired now1 e \<longrightarrow>
         cache_find (cleanup_cache now1 st) p = None)
   \<and> (cache_find (cleanup_cache now1 st) p = None \<and> load p = nullptr \<longrightarrow>
       fst (get_or_load_model load now1 now2 p st) = nullptr \<and>
       cache_find (snd (get_or_load_model load now1 now2 p st)) p = None \<and>
       model_cache (snd (get_or_load_model load now1 now2 p st)) =
         model_cache (cleanup_cache now1 st) \<and>
       loads (snd (get_or_load_model load now1 now2 p st)) = loads st @ [p] \<and>
       (\<forall>load' now3 now4.
          fst (get_or_load_model load' now3 now4 p
                 (snd (get_or_load_model load now1 now2 p st))) = load' p \<and>
          loads (snd (get_or_load_model load' now3 now4 p
                 (snd (get_or_load_model load now1 now2 p st)))) = loads st @ [p, p]))"
proof -
  let ?g = "get_or_load_model load now1 now2 (model_path request) st"
  let ?n = "tok (fst ?g) (input request) (length (input request) + 3)"
  let ?r = "fllama_tokenize load tok now1 now2 request st :: 'a word \<times> tokenizer_state"
  have a: "fst ?g = nullptr \<longrightarrow> unat (fst ?r) = 2 ^ LENGTH('a) - 1"
    by (simp add: fllama_tokenize_cases Let_def unsigned_minus_1_eq_mask mask_eq_exp_minus_1)
  have b: "fst ?g \<noteq> nullptr \<and> sint ?n < 0 \<longrightarrow> fst ?r = 0"
    by (simp add: fllama_tokenize_cases Let_def)
  have c: "fst ?g \<noteq> nullptr \<and> 0 \<le> sint ?n \<and> 31 \<le> LENGTH('a) \<longrightarrow>
           unat (fst ?r) = nat (sint ?n)"
    by (simp add: fllama_tokenize_cases Let_def unat_scast_count)
  have d: "snd ?r = snd ?g"
    by (simp add: fllama_tokenize_cases Let_def)
  have l: "loads (snd (get_or_load_model load now1 now2 p st)) =
       (if cache_find (cleanup_cache now1 st) p = None then loads st @ [p] else loads st)"
    by (rule get_or_load_loads)
  have m1: "cache_find st p = None \<longrightarrow> cache_find (cleanup_cache now1 st) p = None"
    by (simp add: cache_find_cleanup_None)
  have m2: "\<forall>e. wf_model_cache st \<and> cache_find st p = Some e \<and> expired now1 e \<longrightarrow>
         cache_find (cleanup_cache now1 st) p = None"
    by (simp add: cache_find_cleanup)
  have e: "cache_find (cleanup_cache now1 st) p = None \<and> load p = nullptr \<longrightarrow>
       fst (get_or_load_model load now1 now2 p st) = nullptr \<and>
       cache_find (snd (get_or_load_model load now1 now2 p st)) p = None \<and>
       model_cache (snd (get_or_load_model load now1 now2 p st)) =
         model_cache (cleanup_cache now1 st) \<and>
       loads (snd (get_or_load_model load now1 now2 p st)) = loads st @ [p] \<and>
       (\<forall>load' now3 now4.
          fst (get_or_load_model load' now3 now4 p
                 (snd (get_or_load_model load now1 now2 p st))) = load' p \<and>
          loads (snd (get_or_load_model load' now3 now4 p
                 (snd (get_or_load_model load now1 now2 p st)))) = loads st @ [p, p])"
  proof (intro impI)
    assume h: "cache_find (cleanup_cache now1 st) p = None \<and> load p = nullptr"
    let ?st1 = "(cleanup_cache now1 st)\<lparr>loads := loads st @ [p]\<rparr>"
    have g: "get_or_load_model load now1 now2 p st = (nullptr, ?st1)"
      using h by (simp add: failed_load_inserts_nothing)
    have n1: "cache_find ?st1 p = None"
      using h by (simp add: cache_find_def)
    have n2: "cache_find (cleanup_cache now3 ?st1) p = None" for now3
      by (rule cache_find_cleanup_None [OF n1])
    have again: "fst (get_or_load_model load' now3 now4 p ?st1) = load' p \<and>
          loads (snd (get_or_load_model load' now3 now4 p ?st1)) = loads st @ [p, p]"
      for load' now3 now4
      using n2 [of now3] by (simp add: get_or_load_miss nullptr_def)
    show "fst (get_or_load_model load now1 now2 p st) = nullptr \<and>
       cache_find (snd (get_or_load_model load now1 now2 p st)) p = None \<and>
       model_cache (snd (get_or_load_model load now1 now2 p st)) =
         model_cache (cleanup_cache now1 st) \<and>
       loads (snd (get_or_load_model load now1 now2 p st)) = loads st @ [p] \<and>
       (\<forall>load' now3 now4.
          fst (get_or_load_model load' now3 now4 p
                 (snd (get_or_load_model load now1 now2 p st))) = load' p \<and>
          loads (snd (get_or_load_model load' now3 now4 p
                 (snd (get_or_load_model load now1 now2 p st)))) = loads st @ [p, p])"
      unfolding g using n1 again by simp
  qed
  show ?thesis
    by (intro conjI; (rule a | rule b | rule c | rule d | rule l | rule m1 | rule m2 | rule e))
qed

theorem fllama_tokenize_result_witness:
  "fst (get_or_load_model (loads_as nullptr) 5 6 (model_path example_request) example_tokenizer) =
     nullptr
   \<and> unat (fst (fllama_tokenize (loads_as nullptr) (counts_as 5) 5 6 example_request
         example_tokenizer :: 64 word \<times> tokenizer_state)) = 2 ^ 64 - 1
   \<and> fst (get_or_load_model (loads_as 4) 5 6 (model_path example_request) example_tokenizer) \<noteq>
     nullptr
   \<and> sint (counts_as (- 5) 4 ''hi'' 5) < 0
   \<and> fst (fllama_tokenize (loads_as 4) (counts_as (- 5)) 5 6 example_request
         example_tokenizer :: 64 word \<times> tokenizer_state) = 0
   \<and> 0 \<le> sint (counts_as 5 4 ''hi'' 5)
   \<and> 31 \<le> LENGTH(64)
   \<and> unat (fst (fllama_tokenize (loads_as 4) (counts_as 5) 5 6 example_request
         example_tokenizer :: 64 word \<times> tokenizer_state)) = 5
   \<and> cache_find example_tokenizer ''y.gguf'' = None
   \<and> loads_as nullptr ''y.gguf'' = nullptr
   \<and> cache_find (snd (get_or_load_model (loads_as nullptr) 5 6 ''y.gguf'' example_tokenizer))
        ''y.gguf'' = None
   \<and> fst (get_or_load_model (loads_as 4) 7 8 ''y.gguf''
        (snd (get_or_load_model (loads_as nullptr) 5 6 ''y.gguf'' example_tokenizer))) = 4
   \<and> loads (snd (get_or_load_model (loads_as 4) 7 8 ''y.gguf''
        (snd (get_or_load_model (loads_as nullptr) 5 6 ''y.gguf'' example_tokenizer)))) =
       [''y.gguf'', ''y.gguf'']
   \<and> wf_model_cache example_tokenizer
   \<and> cache_find example_tokenizer ''x.gguf'' = Some \<lparr>entry_model = 7, last_access = 0\<rparr>
   \<and> expired 31000000000 \<lparr>entry_model = 7, last_access = 0\<rparr>
   \<and> loads_as nullptr ''x.gguf'' = nullptr
   \<and> fst (get_or_load_model (loads_as nullptr) 31000000000 31000000001 ''x.gguf''
        example_tokenizer) = nullptr
   \<and> model_cache (snd (get_or_load_model (loads_as nullptr) 31000000000 31000000001 ''x.gguf''
        example_tokenizer)) = []
   \<and> cache_find (snd (get_or_load_model (loads_as nullptr) 31000000000 31000000001 ''x.gguf''
        example_tokenizer)) ''x.gguf'' = None
   \<and> loads (snd (get_or_load_model (loads_as nullptr) 31000000000 31000000001 ''x.gguf''
        example_tokenizer)) = [''x.gguf'']
   \<and> fst (get_or_load_model (loads_as 4) 32000000000 32000000001 ''x.gguf''
        (snd (get_or_load_model (loads_as nullptr) 31000000000 31000000001 ''x.gguf''
           example_tokenizer))) = 4
   \<and> loads (snd (get_or_load_model (loads_as 4) 32000000000 32000000001 ''x.gguf''
        (snd (get_or_load_model (loads_as nullptr) 31000000000 31000000001 ''x.gguf''
           example_tokenizer)))) = [''x.gguf'', ''x.gguf'']"
proof -
  have m: "model_path example_request = ''y.gguf''" "input example_request = ''hi''"
    by (simp_all add: example_request_def)
  have n: "cache_find example_tokenizer ''y.gguf'' = None"
    by (simp add: cache_find_def example_tokenizer_def)
  have l: "loads_as nullptr ''y.gguf'' = nullptr" "loads_as 4 ''y.gguf'' = 4"
    "loads_as nullptr ''x.gguf'' = nullptr" "loads_as 4 ''x.gguf'' = 4"
    by (simp_all add: loads_as_def)
  have g0: "fst (get_or_load_model (loads_as nullptr) 5 6 (model_path example_request)
              example_tokenizer) = nullptr"
    and g4: "fst (get_or_load_model (loads_as 4) 5 6 (model_path example_request)
              example_tokenizer) = 4"
    using n l by (simp_all add: m get_or_load_miss cache_find_cleanup_None)
  have s: "sint (counts_as (- 5) 4 ''hi'' 5) < 0" "0 \<le> sint (counts_as 5 4 ''hi'' 5)"
    by (simp_all add: counts_as_def)
  have wf: "wf_model_cache example_tokenizer"
    by (simp add: wf_model_cache_def example_tokenizer_def)
  have x: "cache_find example_tokenizer ''x.gguf'' = Some \<lparr>entry_model = 7, last_access = 0\<rparr>"
    by (simp add: cache_find_def example_tokenizer_def)
  have ex: "expired 31000000000 \<lparr>entry_model = 7, last_access = 0\<rparr>"
    by (simp add: expired_def duration_cast_seconds_def ticks_per_second_def
        signed_divide_int_def)
  note F = fllama_tokenize_result [where 'a = 64, of "loads_as nullptr" 5 6 example_request
      example_tokenizer "counts_as 5" "''y.gguf''"]
  note N = fllama_tokenize_result [where 'a = 64, of "loads_as 4" 5 6 example_request
      example_tokenizer "counts_as (- 5)" "''y.gguf''"]
  note P = fllama_tokenize_result [where 'a = 64, of "loads_as 4" 5 6 example_request
      example_tokenizer "counts_as 5" "''y.gguf''"]
  note E = fllama_tokenize_result [where 'a = 64, of "loads_as nullptr" 31000000000
      31000000001 example_request example_tokenizer "counts_as 5" "''x.gguf''"]
  have a: "unat (fst (fllama_tokenize (loads_as nullptr) (counts_as 5) 5 6 example_request
         example_tokenizer :: 64 word \<times> tokenizer_state)) = 2 ^ 64 - 1"
    using F [THEN conjunct1] g0 by simp
  have b: "fst (fllama_tokenize (loads_as 4) (counts_as (- 5)) 5 6 example_request
         example_tokenizer :: 64 word \<times> tokenizer_state) = 0"
    using N [THEN conjunct2, THEN conjunct1] g4 s(1) by (simp add: m nullptr_def)
  have c: "unat (fst (fllama_tokenize (loads_as 4) (counts_as 5) 5 6 example_request
         example_tokenizer :: 64 word \<times> tokenizer_state)) = 5"
    using P [THEN conjunct2, THEN conjunct2, THEN conjunct1] g4 s(2)
    by (simp add: m nullptr_def counts_as_def)
  have my: "cache_find (cleanup_cache 5 example_tokenizer) ''y.gguf'' = None"
    using F [THEN conjunct2, THEN conjunct2, THEN conjunct2, THEN conjunct2, THEN conjunct2,
        THEN conjunct1] n by simp
  have d: "cache_find (snd (get_or_load_model (loads_as nullptr) 5 6 ''y.gguf'' example_tokenizer))
        ''y.gguf'' = None
     \<and> fst (get_or_load_model (loads_as 4) 7 8 ''y.gguf''
        (snd (get_or_load_model (loads_as nullptr) 5 6 ''y.gguf'' example_tokenizer))) = 4
     \<and> loads (snd (get_or_load_model (loads_as 4) 7 8 ''y.gguf''
        (snd (get_or_load_model (loads_as nullptr) 5 6 ''y.gguf'' example_tokenizer)))) =
       [''y.gguf'', ''y.gguf'']"
    using F [THEN conjunct2, THEN conjunct2, THEN conjunct2, THEN conjunct2, THEN conjunct2,
        THEN conjunct2, THEN conjunct2] my l
    by (simp add: example_tokenizer_def)
  have mx: "cache_find (cleanup_cache 31000000000 example_tokenizer) ''x.gguf'' = None"
    using E [THEN conjunct2, THEN conjunct2, THEN conjunct2, THEN conjunct2, THEN conjunct2,
        THEN conjunct2, THEN conjunct1, rule_format, of "\<lparr>entry_model = 7, last_access = 0\<rparr>"]
      wf x ex by simp
  have cx: "model_cache (cleanup_cache 31000000000 example_tokenizer) = []"
    by (simp add: cleanup_cache_def example_tokenizer_def expired_def duration_cast_seconds_def
        ticks_per_second_def signed_divide_int_def)
  have e: "fst (get_or_load_model (loads_as nullptr) 31000000000 31000000001 ''x.gguf''
        example_tokenizer) = nullptr
     \<and> model_cache (snd (get_or_load_model (loads_as nullptr) 31000000000 31000000001 ''x.gguf''
        example_tokenizer)) = []
     \<and> cache_find (snd (get_or_load_model (loads_as nullptr) 31000000000 31000000001 ''x.gguf''
        example_tokenizer)) ''x.gguf'' = None
     \<and> loads (snd (get_or_load_model (loads_as nullptr) 31000000000 31000000001 ''x.gguf''
        example_tokenizer)) = [''x.gguf'']
     \<and> fst (get_or_load_model (loads_as 4) 32000000000 32000000001 ''x.gguf''
        (snd (get_or_load_model (loads_as nullptr) 31000000000 31000000001 ''x.gguf''
           example_tokenizer))) = 4
     \<and> loads (snd (get_or_load_model (loads_as 4) 32000000000 32000000001 ''x.gguf''
        (snd (get_or_load_model (loads_as nullptr) 31000000000 31000000001 ''x.gguf''
           example_tokenizer)))) = [''x.gguf'', ''x.gguf'']"
    using E [THEN conjunct2, THEN conjunct2, THEN conjunct2, THEN conjunct2, THEN conjunct2,
        THEN conjunct2, THEN conjunct2] mx l cx
    by (simp add: example_tokenizer_def)
  show ?thesis using g0 g4 s a b c d n l wf x ex e by (simp add: nullptr_def)
qed

end
